theory Spec2Isabelle
  imports Complex_Main "HOL-Library.Sublist"
begin

section \<open>Free-text query interpreter and ranking engine of App.tsx\<close>

text \<open>
  The development embeds \<^verbatim>\<open>parseQuery\<close>, \<^verbatim>\<open>scoreProduct\<close> and
  \<^verbatim>\<open>applyAIQuery\<close> of \<^verbatim>\<open>src/App.tsx\<close> (the second source file holds the
  same three functions without comments).

  Conventions of the embedding:
  \<^item> a JavaScript number is a value of the type \<open>double\<close> defined below: a real
    number that the binary64 format represents, with every arithmetic result rounded
    to the nearest such number;
  \<^item> a JavaScript string is a \<^typ>\<open>string\<close>, one \<^typ>\<open>char\<close> per code unit, so
    only code units below 256 are covered; the character tests below give the
    ECMAScript classes restricted to that range;
  \<^item> \<^verbatim>\<open>undefined\<close> in an optional field is \<^term>\<open>None\<close>.
\<close>

subsection \<open>Characters\<close>

definition code :: "char \<Rightarrow> nat" where
  "code c = of_char c"

text \<open>\<^verbatim>\<open>\d\<close> is \<^verbatim>\<open>[0-9]\<close>.\<close>

definition isDigit :: "char \<Rightarrow> bool" where
  "isDigit c \<longleftrightarrow> 48 \<le> code c \<and> code c \<le> 57"

text \<open>
  \<^verbatim>\<open>\s\<close> and the characters removed by \<^verbatim>\<open>trim\<close>: tab, line feed, vertical tab,
  form feed, carriage return, space and the no-break space.
\<close>

definition isSpace :: "char \<Rightarrow> bool" where
  "isSpace c \<longleftrightarrow> (9 \<le> code c \<and> code c \<le> 13) \<or> code c = 32 \<or> code c = 160"

definition isLower :: "char \<Rightarrow> bool" where
  "isLower c \<longleftrightarrow> 97 \<le> code c \<and> code c \<le> 122"

definition isUpper :: "char \<Rightarrow> bool" where
  "isUpper c \<longleftrightarrow> 65 \<le> code c \<and> code c \<le> 90"

text \<open>The word characters that \<^verbatim>\<open>\b\<close> looks at: \<^verbatim>\<open>[A-Za-z0-9_]\<close>.\<close>

definition isWordChar :: "char \<Rightarrow> bool" where
  "isWordChar c \<longleftrightarrow> isLower c \<or> isUpper c \<or> isDigit c \<or> c = CHR ''_''"

text \<open>
  The canonical form that the \<^verbatim>\<open>i\<close> flag compares (no \<^verbatim>\<open>u\<close> flag): the upper-case
  letter. A code unit of 128 or more never canonicalises to an ASCII letter, and every
  literal of the patterns below is ASCII, so only \<^verbatim>\<open>a-z\<close> has to be mapped.
\<close>

definition canonicalize :: "char \<Rightarrow> char" where
  "canonicalize c = (if isLower c then char_of (code c - 32) else c)"

text \<open>\<^verbatim>\<open>String.prototype.toLowerCase\<close> on code units below 256.\<close>

definition toLowerChar :: "char \<Rightarrow> char" where
  "toLowerChar c =
     (if isUpper c \<or> (192 \<le> code c \<and> code c \<le> 222 \<and> code c \<noteq> 215)
      then char_of (code c + 32) else c)"

definition toLowerCase :: "string \<Rightarrow> string" where
  "toLowerCase s = map toLowerChar s"

definition trim :: "string \<Rightarrow> string" where
  "trim s = rev (dropWhile isSpace (rev (dropWhile isSpace s)))"

text \<open>\<^verbatim>\<open>hay.includes(k)\<close>: \<open>k\<close> occurs in \<open>hay\<close> as a contiguous substring.\<close>

fun includesStr :: "string \<Rightarrow> string \<Rightarrow> bool" where
  "includesStr [] k = (k = [])"
| "includesStr (c # cs) k = (prefix k (c # cs) \<or> includesStr cs k)"

subsection \<open>Regular expressions\<close>

text \<open>
  The constructs that the patterns of \<^verbatim>\<open>parseQuery\<close> use. All quantifiers are
  greedy. Literal characters are compared as the \<^verbatim>\<open>i\<close> flag does: every pattern of
  the source that holds a letter carries that flag. A character class of the source is
  the alternative of its members.
\<close>

datatype regex =
    Eps
  | Lit char
  | Digit
  | Space
  | WordB
  | Bol
  | Eol
  | Seq regex regex
  | Alt regex regex
  | Opt regex
  | Star regex
  | Plus regex
  | Group nat regex

text \<open>
  A matcher state: the input already consumed (reversed, nearest character first),
  the input still to be read, and the capture groups set so far (latest first).
\<close>

type_synonym mstate = "string \<times> string \<times> (nat \<times> string) list"

definition remaining :: "mstate \<Rightarrow> string" where
  "remaining st = fst (snd st)"

text \<open>
  The iterations of a greedy \<open>*\<close>: one more iteration is tried before stopping, and an
  iteration that consumes nothing is rejected, as ECMAScript does. The fuel is the
  length of the remaining input, which bounds the number of consuming iterations.
\<close>

fun star_loop :: "(mstate \<Rightarrow> mstate list) \<Rightarrow> nat \<Rightarrow> mstate \<Rightarrow> mstate list" where
  "star_loop f 0 st = [st]"
| "star_loop f (Suc n) st =
     concat (map (star_loop f n)
       (filter (\<lambda>st'. length (remaining st') < length (remaining st)) (f st))) @ [st]"

text \<open>
  \<open>ms r st\<close> lists the states in which a match of \<open>r\<close> begun in \<open>st\<close> can end, in the
  order in which a backtracking matcher tries them.
\<close>

primrec ms :: "regex \<Rightarrow> mstate \<Rightarrow> mstate list" where
  "ms Eps st = [st]"
| "ms (Lit c) st =
     (case st of (b, r, caps) \<Rightarrow>
        (case r of [] \<Rightarrow> []
         | x # xs \<Rightarrow> if canonicalize x = canonicalize c then [(x # b, xs, caps)] else []))"
| "ms Digit st =
     (case st of (b, r, caps) \<Rightarrow>
        (case r of [] \<Rightarrow> [] | x # xs \<Rightarrow> if isDigit x then [(x # b, xs, caps)] else []))"
| "ms Space st =
     (case st of (b, r, caps) \<Rightarrow>
        (case r of [] \<Rightarrow> [] | x # xs \<Rightarrow> if isSpace x then [(x # b, xs, caps)] else []))"
| "ms WordB st =
     (case st of (b, r, caps) \<Rightarrow>
        if (b \<noteq> [] \<and> isWordChar (hd b)) \<noteq> (r \<noteq> [] \<and> isWordChar (hd r)) then [st] else [])"
| "ms Bol st = (case st of (b, r, caps) \<Rightarrow> if b = [] then [st] else [])"
| "ms Eol st = (case st of (b, r, caps) \<Rightarrow> if r = [] then [st] else [])"
| "ms (Seq r1 r2) st = concat (map (ms r2) (ms r1 st))"
| "ms (Alt r1 r2) st = ms r1 st @ ms r2 st"
| "ms (Opt r) st = ms r st @ [st]"
| "ms (Star r) st = star_loop (ms r) (length (remaining st)) st"
| "ms (Plus r) st =
     concat (map (\<lambda>st'. star_loop (ms r) (length (remaining st')) st') (ms r st))"
| "ms (Group n r) st =
     map (\<lambda>st'. case st' of (b', r', caps') \<Rightarrow>
            (b', r', (n, rev (take (length b' - length (fst st)) b')) # caps'))
         (ms r st)"

text \<open>
  \<^verbatim>\<open>RegExp.prototype.exec\<close> without the \<^verbatim>\<open>g\<close> and \<^verbatim>\<open>y\<close> flags: the leftmost start
  position at which the pattern matches, and there the first match that backtracking
  finds. The result is the capture groups of that match.
\<close>

fun exec_from :: "regex \<Rightarrow> string \<Rightarrow> string \<Rightarrow> (nat \<times> string) list option" where
  "exec_from re b [] =
     (case ms re (b, [], []) of [] \<Rightarrow> None | st # _ \<Rightarrow> Some (snd (snd st)))"
| "exec_from re b (x # xs) =
     (case ms re (b, x # xs, []) of
        [] \<Rightarrow> exec_from re (x # b) xs
      | st # _ \<Rightarrow> Some (snd (snd st)))"

definition exec :: "regex \<Rightarrow> string \<Rightarrow> (nat \<times> string) list option" where
  "exec re s = exec_from re [] s"

definition test :: "regex \<Rightarrow> string \<Rightarrow> bool" where
  "test re s \<longleftrightarrow> exec re s \<noteq> None"

text \<open>
  \<open>m[n]\<close> of a match. A group that took no part in the match is \<^verbatim>\<open>undefined\<close> in
  JavaScript; the groups that \<^verbatim>\<open>parseQuery\<close> reads stand outside every alternative
  and quantifier, so they are set in every match, and the empty string here is never
  read.
\<close>

definition grp :: "(nat \<times> string) list \<Rightarrow> nat \<Rightarrow> string" where
  "grp m n = (case map_of m n of None \<Rightarrow> [] | Some t \<Rightarrow> t)"

fun seqs :: "regex list \<Rightarrow> regex" where
  "seqs [] = Eps"
| "seqs [r] = r"
| "seqs (r # rs) = Seq r (seqs rs)"

fun alts :: "regex \<Rightarrow> regex list \<Rightarrow> regex" where
  "alts r [] = r"
| "alts r (q # qs) = Alt r (alts q qs)"

definition lits :: "string \<Rightarrow> regex" where
  "lits w = seqs (map Lit w)"

subsection \<open>JavaScript numbers\<close>

text \<open>
  A JavaScript number is an IEEE 754 binary64 value, and an arithmetic operation yields
  the exact result rounded to the nearest representable value, a tie going to the even
  significand. The model below has the 53-bit significand and the smallest exponent
  \<open>-1022\<close>, hence the subnormal numbers. It leaves out what the three functions do not
  reach on finite prices and ratings of ordinary size: overflow to \<^verbatim>\<open>Infinity\<close> (the
  exponent has no upper bound here), \<^verbatim>\<open>NaN\<close>, and the sign of zero.
\<close>

text \<open>Rounding to the nearest integer, a tie going to the even one.\<close>

definition roundHalfEven :: "real \<Rightarrow> int" where
  "roundHalfEven y =
     (let f = \<lfloor>y\<rfloor>; r = y - of_int f
      in if r < 1/2 then f else if 1/2 < r then f + 1 else if even f then f else f + 1)"

text \<open>
  The binary exponent of a positive number: the \<open>e\<close> with \<open>2 powi e \<le> x < 2 powi (e + 1)\<close>,
  or \<open>-1022\<close> when \<open>x\<close> is smaller than \<open>2 powi (-1022)\<close>.
\<close>

function expoHi :: "real \<Rightarrow> int" where
  "expoHi x = (if 2 \<le> x then expoHi (x / 2) + 1 else 0)"
  by pat_completeness auto
termination
proof (relation "measure (\<lambda>x. nat \<lfloor>x\<rfloor>)")
  show "wf (measure (\<lambda>x::real. nat \<lfloor>x\<rfloor>))" by simp
next
  fix x :: real
  assume x: "2 \<le> x"
  have "x / 2 \<le> x - 1" using x by simp
  then have "\<lfloor>x / 2\<rfloor> \<le> \<lfloor>x - 1\<rfloor>" by (rule floor_mono)
  moreover have "0 < \<lfloor>x\<rfloor>" using x by simp
  ultimately show "(x / 2, x) \<in> measure (\<lambda>x. nat \<lfloor>x\<rfloor>)" by simp
qed

function expoLo :: "real \<Rightarrow> nat \<Rightarrow> int" where
  "expoLo x n = (if x < 1 \<and> n < 1022 then expoLo (2 * x) (Suc n) else - int n)"
  by pat_completeness auto
termination
  by (relation "measure (\<lambda>(x, n). 1022 - n)") auto

definition expo :: "real \<Rightarrow> int" where
  "expo x = (if 1 \<le> x then expoHi x else expoLo x 0)"

text \<open>
  The binary64 value nearest to a real number: the number is divided by the unit in
  the last place of its binade, rounded to an integer and scaled back.
\<close>

definition roundToDouble :: "real \<Rightarrow> real" where
  "roundToDouble x =
     (if x = 0 then 0
      else let u = 2 powi (expo \<bar>x\<bar> - 52) in of_int (roundHalfEven (x / u)) * u)"

text \<open>The type of the numbers: the values of \<^const>\<open>roundToDouble\<close>.\<close>

typedef double = "range roundToDouble"
  by blast

setup_lifting type_definition_double

text \<open>\<open>D x\<close> is the number that the source text \<open>x\<close> denotes.\<close>

lift_definition D :: "real \<Rightarrow> double" is roundToDouble
  by simp

text \<open>
  The operators \<^verbatim>\<open>+\<close>, \<^verbatim>\<open>-\<close>, \<^verbatim>\<open>*\<close>, \<^verbatim>\<open>/\<close> and the comparisons of
  JavaScript numbers.
\<close>

instantiation double :: "{zero, one, plus, minus, times, inverse, linorder, equal}"
begin

lift_definition zero_double :: double is "roundToDouble 0"
  by simp

lift_definition one_double :: double is "roundToDouble 1"
  by simp

lift_definition plus_double :: "double \<Rightarrow> double \<Rightarrow> double" is "\<lambda>a b. roundToDouble (a + b)"
  by simp

lift_definition minus_double :: "double \<Rightarrow> double \<Rightarrow> double" is "\<lambda>a b. roundToDouble (a - b)"
  by simp

lift_definition times_double :: "double \<Rightarrow> double \<Rightarrow> double" is "\<lambda>a b. roundToDouble (a * b)"
  by simp

lift_definition divide_double :: "double \<Rightarrow> double \<Rightarrow> double" is "\<lambda>a b. roundToDouble (a / b)"
  by simp

lift_definition inverse_double :: "double \<Rightarrow> double" is "\<lambda>a. roundToDouble (1 / a)"
  by simp

lift_definition less_eq_double :: "double \<Rightarrow> double \<Rightarrow> bool" is "(\<le>)" .

lift_definition less_double :: "double \<Rightarrow> double \<Rightarrow> bool" is "(<)" .

lift_definition equal_double :: "double \<Rightarrow> double \<Rightarrow> bool" is "(=)" .

instance
  by standard (transfer; auto)+

end

text \<open>The real number that a JavaScript number stands for.\<close>

definition val :: "double \<Rightarrow> real" where
  "val d = Rep_double d"

subsection \<open>Numbers written in decimal\<close>

definition digitVal :: "char \<Rightarrow> nat" where
  "digitVal c = code c - 48"

definition natOfDigits :: "string \<Rightarrow> nat" where
  "natOfDigits ds = foldl (\<lambda>n c. 10 * n + digitVal c) 0 ds"

text \<open>
  \<^verbatim>\<open>Number(t)\<close> for a text \<open>t\<close> of the shape \<^verbatim>\<open>\d+(\.\d+)?\<close>, the only shape that
  \<^verbatim>\<open>parseQuery\<close> converts: the number nearest to the decimal value. (A numeral
  beyond the largest binary64 value, which JavaScript reads as \<^verbatim>\<open>Infinity\<close>, is a
  finite number here.)
\<close>

definition Number :: "string \<Rightarrow> double" where
  "Number t =
     (let ip = takeWhile (\<lambda>c. c \<noteq> CHR ''.'') t;
          fp = drop (length ip + 1) t
      in D (real (natOfDigits ip) + real (natOfDigits fp) / 10 ^ length fp))"

subsection \<open>The data model\<close>

datatype Category = Shoes | Electronics | Apparel | Accessories | Watches | Bags

fun categoryText :: "Category \<Rightarrow> string" where
  "categoryText Shoes = ''Shoes''"
| "categoryText Electronics = ''Electronics''"
| "categoryText Apparel = ''Apparel''"
| "categoryText Accessories = ''Accessories''"
| "categoryText Watches = ''Watches''"
| "categoryText Bags = ''Bags''"

record Product =
  ident :: string
  name :: string
  price :: double
  category :: Category
  rating :: double
  description :: string

datatype PriceIntent = High | Low

record Query =
  maxPrice :: "double option"
  minPrice :: "double option"
  minRating :: "double option"
  "keywords" :: "string list"
  priceIntent :: "PriceIntent option"

definition STOPWORDS :: "string set" where
  "STOPWORDS = set [
     ''the'', ''a'', ''an'', ''with'', ''and'', ''for'', ''under'', ''below'', ''less'', ''than'',
     ''between'', ''over'', ''above'', ''at'', ''least'', ''most'', ''good'', ''great'', ''high'',
     ''reviews'', ''review'', ''stars'', ''star'', ''me'', ''show'', ''find'', ''in'', ''on'', ''of'',
     ''to'',
     ''expensive'', ''premium'', ''highend'', ''high-end'', ''pricey'', ''pricy'', ''top-tier'',
     ''toptier'',
     ''cheap'', ''budget'', ''affordable'', ''inexpensive'', ''low-cost'', ''lowcost'', ''low-end'',
     ''lowend'']"

definition CATEGORY_HINTS :: "string list" where
  "CATEGORY_HINTS = [''shoes'', ''electronics'', ''apparel'', ''accessories'', ''watches'', ''bags'']"

subsection \<open>parseQuery\<close>

text \<open>\<^verbatim>\<open>\d+(?:\.\d+)?\<close>\<close>

definition decimal_re :: regex where
  "decimal_re = Seq (Plus Digit) (Opt (Seq (Lit CHR ''.'') (Plus Digit)))"

text \<open>\<^verbatim>\<open>/between\s*\$?(\d+(?:\.\d+)?)\s*(?:and|-|to)\s*\$?(\d+(?:\.\d+)?)/i\<close>\<close>

definition between_re :: regex where
  "between_re = seqs [lits ''between'', Star Space, Opt (Lit CHR ''$''), Group 1 decimal_re,
     Star Space, alts (lits ''and'') [Lit CHR ''-'', lits ''to''],
     Star Space, Opt (Lit CHR ''$''), Group 2 decimal_re]"

text \<open>\<^verbatim>\<open>/(under|below|less\s+than|cheaper\s+than)\s*\$?(\d+(?:\.\d+)?)/i\<close>\<close>

definition under_re :: regex where
  "under_re = seqs [
     Group 1 (alts (lits ''under'') [lits ''below'',
       seqs [lits ''less'', Plus Space, lits ''than''],
       seqs [lits ''cheaper'', Plus Space, lits ''than'']]),
     Star Space, Opt (Lit CHR ''$''), Group 2 decimal_re]"

text \<open>\<^verbatim>\<open>/(over|above|more\s+than|at\s+least)\s*\$?(\d+(?:\.\d+)?)/i\<close>\<close>

definition over_re :: regex where
  "over_re = seqs [
     Group 1 (alts (lits ''over'') [lits ''above'',
       seqs [lits ''more'', Plus Space, lits ''than''],
       seqs [lits ''at'', Plus Space, lits ''least'']]),
     Star Space, Opt (Lit CHR ''$''), Group 2 decimal_re]"

text \<open>\<^verbatim>\<open>/(\d(?:\.\d)?)\s*stars?/i\<close>\<close>

definition starsNum_re :: regex where
  "starsNum_re = seqs [Group 1 (Seq Digit (Opt (Seq (Lit CHR ''.'') Digit))),
     Star Space, lits ''star'', Opt (Lit CHR ''s'')]"

text \<open>\<^verbatim>\<open>/\b(good|great|high)\s+reviews?\b/i\<close>\<close>

definition impliesGood_re :: regex where
  "impliesGood_re = seqs [WordB, Group 1 (alts (lits ''good'') [lits ''great'', lits ''high'']),
     Plus Space, lits ''review'', Opt (Lit CHR ''s''), WordB]"

text \<open>\<^verbatim>\<open>[-\s]?\<close>\<close>

definition hyphenOrSpace :: regex where
  "hyphenOrSpace = Opt (Alt (Lit CHR ''-'') Space)"

text \<open>\<^verbatim>\<open>/\b(expensive|premium|high[-\s]?end|pricey|pricy|top[-\s]?tier)\b/i\<close>\<close>

definition wantsHigh_re :: regex where
  "wantsHigh_re = seqs [WordB,
     Group 1 (alts (lits ''expensive'') [lits ''premium'',
       seqs [lits ''high'', hyphenOrSpace, lits ''end''],
       lits ''pricey'', lits ''pricy'',
       seqs [lits ''top'', hyphenOrSpace, lits ''tier'']]),
     WordB]"

text \<open>\<^verbatim>\<open>/\b(cheap|budget|affordable|inexpensive|low[-\s]?cost|low[-\s]?end)\b/i\<close>\<close>

definition wantsLow_re :: regex where
  "wantsLow_re = seqs [WordB,
     Group 1 (alts (lits ''cheap'') [lits ''budget'', lits ''affordable'', lits ''inexpensive'',
       seqs [lits ''low'', hyphenOrSpace, lits ''cost''],
       seqs [lits ''low'', hyphenOrSpace, lits ''end'']]),
     WordB]"

text \<open>\<^verbatim>\<open>/^\d+(\.\d+)?$/\<close>\<close>

definition numberToken_re :: regex where
  "numberToken_re = seqs [Bol, Plus Digit, Opt (Group 1 (Seq (Lit CHR ''.'') (Plus Digit))), Eol]"

text \<open>\<^verbatim>\<open>.replace(/[^a-z0-9\s-]/g, " ")\<close>\<close>

definition replacePunctuation :: "string \<Rightarrow> string" where
  "replacePunctuation s =
     map (\<lambda>c. if isLower c \<or> isDigit c \<or> isSpace c \<or> c = CHR ''-'' then c else CHR '' '') s"

text \<open>
  \<^verbatim>\<open>.split(/\s+/)\<close>: the pieces between the runs of white space; a run at either end
  of the text leaves an empty piece there, and the empty text gives one empty piece.
\<close>

function splitSpaces :: "string \<Rightarrow> string \<Rightarrow> string list" where
  "splitSpaces cur [] = [rev cur]"
| "splitSpaces cur (c # cs) =
     (if isSpace c then rev cur # splitSpaces [] (dropWhile isSpace cs)
      else splitSpaces (c # cur) cs)"
  by pat_completeness auto
termination
  by (relation "measure (\<lambda>(cur, s). length s)")
     (auto simp: length_dropWhile_le less_Suc_eq_le)

text \<open>\<^verbatim>\<open>w.replace(/-/g, "")\<close>\<close>

definition removeHyphens :: "string \<Rightarrow> string" where
  "removeHyphens w = filter (\<lambda>c. c \<noteq> CHR ''-'') w"

definition extractKeywords :: "string \<Rightarrow> string list" where
  "extractKeywords s =
     filter (\<lambda>w. w \<noteq> [] \<and> w \<notin> STOPWORDS \<and> \<not> test numberToken_re w)
       (map removeHyphens (splitSpaces [] (replacePunctuation (toLowerCase s))))"

definition parseQuery :: "string \<Rightarrow> Query" where
  "parseQuery q =
     (let s = trim q;
          between = exec between_re s;
          under = exec under_re s;
          over = exec over_re s;
          starsNum = exec starsNum_re s;
          impliesGood = test impliesGood_re s;
          minRating = (case starsNum of Some m \<Rightarrow> Some (Number (grp m 1))
                       | None \<Rightarrow> if impliesGood then Some (D 4) else None);
          (minPrice, maxPrice) =
            (case between of
               Some m \<Rightarrow>
                 (let a = Number (grp m 1); b = Number (grp m 2)
                  in (Some (min a b), Some (max a b)))
             | None \<Rightarrow>
                 (case under of
                    Some m \<Rightarrow> (None, Some (Number (grp m 2)))
                  | None \<Rightarrow>
                      (case over of
                         Some m \<Rightarrow> (Some (Number (grp m 2)), None)
                       | None \<Rightarrow> (None, None))));
          wantsHigh = test wantsHigh_re s;
          wantsLow = test wantsLow_re s;
          priceIntent = (if wantsHigh then Some High else if wantsLow then Some Low else None);
          keywords = extractKeywords s
      in \<lparr>maxPrice = maxPrice, minPrice = minPrice, minRating = minRating,
          keywords = keywords, priceIntent = priceIntent\<rparr>)"

subsection \<open>scoreProduct\<close>

definition scoreProduct :: "Product \<Rightarrow> Query \<Rightarrow> double \<Rightarrow> double" where
  "scoreProduct p query nprice =
     (let hay = toLowerCase (name p @ '' '' @ description p @ '' '' @ categoryText (category p));
          s1 = foldl (\<lambda>s k. if includesStr hay k then s + D 2.5 else s) 0 (keywords query);
          catLower = toLowerCase (categoryText (category p));
          s2 = (if list_ex (\<lambda>h. h \<in> set (keywords query) \<and> h = catLower) CATEGORY_HINTS
                then s1 + D 2.5 else s1);
          s3 = (case maxPrice query of
                  Some m \<Rightarrow> if price p \<le> m then s2 + D 2 else s2 | None \<Rightarrow> s2);
          s4 = (case minPrice query of
                  Some m \<Rightarrow> if price p \<ge> m then s3 + D 1.5 else s3 | None \<Rightarrow> s3);
          s5 = (case minRating query of
                  Some m \<Rightarrow> if rating p \<ge> m then s4 + D 2 else s4 | None \<Rightarrow> s4);
          s6 = (if priceIntent query = Some High then s5 + nprice * D 3 else s5);
          s7 = (if priceIntent query = Some Low then s6 + (1 - nprice) * D 3 else s6);
          s8 = s7 + rating p * D 0.2;
          s9 = s8 - price p * D 0.01
      in s9)"

subsection \<open>applyAIQuery\<close>

text \<open>
  \<^verbatim>\<open>Math.min(...xs)\<close> and \<^verbatim>\<open>Math.max(...xs)\<close>. Of no arguments they are
  \<^verbatim>\<open>Infinity\<close> and \<^verbatim>\<open>-Infinity\<close>, which the model does not have;
  \<^verbatim>\<open>applyAIQuery\<close> calls them on the prices of a non-empty list only, so the value
  given here for the empty list is never read.
\<close>

definition mathMin :: "double list \<Rightarrow> double" where
  "mathMin xs = (case xs of [] \<Rightarrow> 0 | x # ys \<Rightarrow> fold min ys x)"

definition mathMax :: "double list \<Rightarrow> double" where
  "mathMax xs = (case xs of [] \<Rightarrow> 0 | x # ys \<Rightarrow> fold max ys x)"

text \<open>The objects \<^verbatim>\<open>{ p, s, nprice }\<close> that are filtered and sorted.\<close>

record Scored =
  prod :: Product
  scr :: double
  npr :: double

text \<open>The comparison function handed to \<^verbatim>\<open>sort\<close>.\<close>

definition compareScored :: "Query \<Rightarrow> Scored \<Rightarrow> Scored \<Rightarrow> double" where
  "compareScored parsed a b =
     (if scr b \<noteq> scr a then scr b - scr a
      else if priceIntent parsed = Some High \<and> npr b \<noteq> npr a then npr b - npr a
      else if priceIntent parsed = Some Low \<and> npr b \<noteq> npr a then npr a - npr b
      else if rating (prod b) \<noteq> rating (prod a) then rating (prod b) - rating (prod a)
      else price (prod a) - price (prod b))"

text \<open>
  \<^verbatim>\<open>Array.prototype.sort\<close> is stable: elements that compare as equal keep their
  relative order. Insertion from the right, placing an element before the first one
  that it does not have to follow, is such a sort.
\<close>

fun insertBy :: "('a \<Rightarrow> 'a \<Rightarrow> double) \<Rightarrow> 'a \<Rightarrow> 'a list \<Rightarrow> 'a list" where
  "insertBy c x [] = [x]"
| "insertBy c x (y # ys) = (if c x y \<le> 0 then x # y # ys else y # insertBy c x ys)"

definition sortBy :: "('a \<Rightarrow> 'a \<Rightarrow> double) \<Rightarrow> 'a list \<Rightarrow> 'a list" where
  "sortBy c xs = foldr (insertBy c) xs []"

text \<open>
  The body of \<^verbatim>\<open>applyAIQuery\<close> as a function of the parsed query. The source
  parses the query after the test for the empty list; \<^verbatim>\<open>parseQuery\<close> always returns
  and has no effect, so the order does not show.
\<close>

definition rank :: "Product list \<Rightarrow> Query \<Rightarrow> Product list" where
  "rank all parsed =
     (if length all = 0 then all
      else
        let prices = map price all;
            mn = mathMin prices;
            mx = mathMax prices;
            span = max 1 (mx - mn);
            scored =
              map prod
                (sortBy (compareScored parsed)
                  (filter (\<lambda>x. scr x > D 0.5)
                    (map (\<lambda>p. let nprice = (price p - mn) / span;
                                  s = scoreProduct p parsed nprice
                              in \<lparr>prod = p, scr = s, npr = nprice\<rparr>) all)))
        in if length scored \<noteq> 0 then scored else all)"

definition applyAIQuery :: "Product list \<Rightarrow> string \<Rightarrow> Product list" where
  "applyAIQuery all q = rank all (parseQuery q)"

subsection \<open>Sample inputs\<close>

text \<open>Two entries of the catalog in \<^verbatim>\<open>data/products\<close>, and a parsed query that sets nothing.\<close>

definition jacket :: Product where
  "jacket = \<lparr>ident = ''p5'', name = ''All-Weather Jacket'', price = D 119, category = Apparel,
     rating = D 4.6,
     description = ''Water-resistant shell with breathable lining for daily commuting.''\<rparr>"

definition watch :: Product where
  "watch = \<lparr>ident = ''p9'', name = ''Steel Chrono Watch'', price = D 149, category = Watches,
     rating = D 4.3,
     description = ''Stainless steel chronograph with sapphire glass and 5ATM rating.''\<rparr>"

definition noConstraints :: Query where
  "noConstraints =
     \<lparr>maxPrice = None, minPrice = None, minRating = None, keywords = [], priceIntent = None\<rparr>"

text \<open>An item priced exactly 50.\<close>

definition belt50 :: Product where
  "belt50 = \<lparr>ident = ''x1'', name = ''Leather Belt'', price = D 50, category = Accessories,
     rating = D 4, description = ''A belt.''\<rparr>"

subsection \<open>Notions used in the statements\<close>

text \<open>
  The values \<^verbatim>\<open>min\<close>, \<^verbatim>\<open>max\<close>, \<^verbatim>\<open>span\<close>, \<^verbatim>\<open>nprice\<close> and \<^verbatim>\<open>s\<close> that
  \<^verbatim>\<open>applyAIQuery\<close> computes for a candidate list and for an item of it.
\<close>

definition priceMin :: "Product list \<Rightarrow> double" where
  "priceMin all = mathMin (map price all)"

definition priceMax :: "Product list \<Rightarrow> double" where
  "priceMax all = mathMax (map price all)"

definition priceSpan :: "Product list \<Rightarrow> double" where
  "priceSpan all = max 1 (priceMax all - priceMin all)"

definition npriceOf :: "Product list \<Rightarrow> Product \<Rightarrow> double" where
  "npriceOf all p = (price p - priceMin all) / priceSpan all"

definition scoreOf :: "Product list \<Rightarrow> Query \<Rightarrow> Product \<Rightarrow> double" where
  "scoreOf all parsed p = scoreProduct p parsed (npriceOf all p)"

text \<open>The items of a candidate list that pass the relevance threshold.\<close>

definition passing :: "Product list \<Rightarrow> Query \<Rightarrow> Product list" where
  "passing all parsed = filter (\<lambda>p. D 0.5 < scoreOf all parsed p) all"

text \<open>The match that backtracking finds first, if there is one.\<close>

definition firstMatch :: "regex \<Rightarrow> mstate \<Rightarrow> mstate option" where
  "firstMatch r st = (case ms r st of [] \<Rightarrow> None | x # _ \<Rightarrow> Some x)"

text \<open>
  A number as a query writes it: decimal digits, optionally followed by a point and
  more digits.
\<close>

definition isDecimal :: "string \<Rightarrow> bool" where
  "isDecimal t \<longleftrightarrow>
     takeWhile isDigit t \<noteq> [] \<and>
     (case dropWhile isDigit t of
        [] \<Rightarrow> True
      | c # fp \<Rightarrow> c = CHR ''.'' \<and> fp \<noteq> [] \<and> list_all isDigit fp)"







section \<open>Properties of the number model\<close>

declare expoHi.simps [simp del]
declare expoLo.simps [simp del]

subsection \<open>Evaluation\<close>

lemma Abs_double_code [code abstype]: "Abs_double (Rep_double x) = x"
  by (rule Rep_double_inverse)

declare D.rep_eq [code abstract]
declare zero_double.rep_eq [code abstract]
declare one_double.rep_eq [code abstract]
declare plus_double.rep_eq [code abstract]
declare minus_double.rep_eq [code abstract]
declare times_double.rep_eq [code abstract]
declare divide_double.rep_eq [code abstract]
declare inverse_double.rep_eq [code abstract]
declare less_eq_double.rep_eq [code]
declare less_double.rep_eq [code]
declare equal_double.rep_eq [code]

subsection \<open>Rounding is monotone and leaves a representable number as it is\<close>

lemma roundHalfEven_of_int: "roundHalfEven (of_int k) = k"
  by (simp add: roundHalfEven_def)

lemma roundHalfEven_cases: "roundHalfEven y = \<lfloor>y\<rfloor> \<or> roundHalfEven y = \<lfloor>y\<rfloor> + 1"
  by (simp add: roundHalfEven_def Let_def)

lemma roundHalfEven_mono:
  assumes "x \<le> y"
  shows "roundHalfEven x \<le> roundHalfEven y"
proof (cases "\<lfloor>x\<rfloor> = \<lfloor>y\<rfloor>")
  case True
  then show ?thesis using assms by (auto simp: roundHalfEven_def Let_def)
next
  case False
  then have "\<lfloor>x\<rfloor> + 1 \<le> \<lfloor>y\<rfloor>" using floor_mono [OF assms] by linarith
  moreover have "roundHalfEven x \<le> \<lfloor>x\<rfloor> + 1" using roundHalfEven_cases [of x] by linarith
  moreover have "\<lfloor>y\<rfloor> \<le> roundHalfEven y" using roundHalfEven_cases [of y] by linarith
  ultimately show ?thesis by linarith
qed

lemma roundHalfEven_minus: "roundHalfEven (- y) = - roundHalfEven y"
proof (cases "y = of_int \<lfloor>y\<rfloor>")
  case True
  then obtain k where k: "y = of_int k" ..
  have "roundHalfEven (of_int (- k)) = - k" by (rule roundHalfEven_of_int)
  then show ?thesis by (simp add: k roundHalfEven_of_int)
next
  case False
  have a: "of_int \<lfloor>y\<rfloor> \<le> y" by simp
  have b: "y < of_int \<lfloor>y\<rfloor> + 1" by linarith
  have c: "of_int \<lfloor>y\<rfloor> < y" using a False by linarith
  have fl: "\<lfloor>- y\<rfloor> = - \<lfloor>y\<rfloor> - 1"
  proof (rule floor_unique)
    have "- of_int \<lfloor>y\<rfloor> - 1 \<le> - y" using b by linarith
    then show "of_int (- \<lfloor>y\<rfloor> - 1) \<le> - y" by simp
    have "- y < - of_int \<lfloor>y\<rfloor>" using c by linarith
    then show "- y < of_int (- \<lfloor>y\<rfloor> - 1) + 1" by simp
  qed
  show ?thesis
    unfolding roundHalfEven_def Let_def fl by (auto simp: algebra_simps)
qed

lemma roundHalfEven_ge: "of_int k \<le> y \<Longrightarrow> k \<le> roundHalfEven y"
  using roundHalfEven_mono [of "of_int k" y] by (simp add: roundHalfEven_of_int)

lemma roundHalfEven_le: "y \<le> of_int k \<Longrightarrow> roundHalfEven y \<le> k"
  using roundHalfEven_mono [of y "of_int k"] by (simp add: roundHalfEven_of_int)


lemma pow2_pos: "0 < (2::real) powi e"
  by (simp add: zero_less_power_int)

lemma pow2_Suc: "(2::real) powi (e + 1) = 2 * 2 powi e"
  by (simp add: power_int_add)

lemma pow2_mono: "a \<le> b \<Longrightarrow> (2::real) powi a \<le> 2 powi b"
  by (simp add: power_int_increasing)

lemma pow2_less_mono: "a < b \<Longrightarrow> (2::real) powi a < 2 powi b"
  by (simp add: power_int_strict_increasing)

lemma expoHi_spec:
  "1 \<le> x \<Longrightarrow> 0 \<le> expoHi x \<and> 2 powi expoHi x \<le> x \<and> x < 2 powi (expoHi x + 1)"
proof (induction x rule: expoHi.induct)
  case (1 x)
  show ?case
  proof (cases "2 \<le> x")
    case True
    then have "1 \<le> x / 2" by simp
    from "1.IH" [OF True this] have ih: "0 \<le> expoHi (x / 2)"
      "2 powi expoHi (x / 2) \<le> x / 2" "x / 2 < 2 powi (expoHi (x / 2) + 1)" by simp_all
    have e: "expoHi x = expoHi (x / 2) + 1" using True by (simp add: expoHi.simps [of x])
    have p: "(2::real) powi (expoHi (x / 2) + 1 + 1) = 2 * (2 * 2 powi expoHi (x / 2))"
      by (simp only: pow2_Suc)
    have q: "(2::real) powi (expoHi (x / 2) + 1) = 2 * 2 powi expoHi (x / 2)"
      by (simp only: pow2_Suc)
    show ?thesis unfolding e p using ih unfolding q by simp
  next
    case False
    then have "expoHi x = 0" by (simp add: expoHi.simps [of x])
    then show ?thesis using False "1.prems" by simp
  qed
qed

lemma expoLo_spec:
  "0 < x \<Longrightarrow> x < 2 \<Longrightarrow> n \<le> 1022 \<Longrightarrow>
     - 1022 \<le> expoLo x n \<and> x * 2 powi (- int n) < 2 powi (expoLo x n + 1)
     \<and> (expoLo x n = - 1022 \<or> 2 powi expoLo x n \<le> x * 2 powi (- int n))"
proof (induction x n rule: expoLo.induct)
  case (1 x n)
  show ?case
  proof (cases "x < 1 \<and> n < 1022")
    case True
    have e: "expoLo x n = expoLo (2 * x) (Suc n)" using True by (simp add: expoLo.simps [of x n])
    have s: "2 * x * 2 powi (- int (Suc n)) = x * 2 powi (- int n)"
    proof -
      have "(2::real) powi (- int n) = 2 powi (- int (Suc n) + 1)" by simp
      also have "\<dots> = 2 * 2 powi (- int (Suc n))" by (rule pow2_Suc)
      finally show ?thesis by simp
    qed
    from "1.IH" [OF True] True "1.prems" show ?thesis unfolding e s by simp
  next
    case False
    then have e: "expoLo x n = - int n" by (subst expoLo.simps) auto
    have "x * 2 powi (- int n) < 2 * 2 powi (- int n)"
      using "1.prems"(2) pow2_pos [of "- int n"] by (intro mult_strict_right_mono)
    then have lt: "x * 2 powi (- int n) < 2 powi (- int n + 1)"
      by (simp only: pow2_Suc)
    show ?thesis
    proof (cases "x < 1")
      case True
      with False "1.prems" have "n = 1022" by simp
      then show ?thesis using lt e by simp
    next
      case False
      then have "2 powi (- int n) \<le> x * 2 powi (- int n)"
        using pow2_pos [of "- int n"] by simp
      then show ?thesis using lt e "1.prems"(3) by simp
    qed
  qed
qed

lemma expo_spec:
  assumes "0 < x"
  shows "- 1022 \<le> expo x \<and> x < 2 powi (expo x + 1) \<and> (expo x = - 1022 \<or> 2 powi expo x \<le> x)"
proof (cases "1 \<le> x")
  case True
  from expoHi_spec [OF True] show ?thesis using True by (simp add: expo_def)
next
  case False
  with assms expoLo_spec [of x 0] show ?thesis by (simp add: expo_def)
qed

lemma expo_unique:
  assumes "0 < x" and "- 1022 \<le> e" and "x < 2 powi (e + 1)" and "e = - 1022 \<or> 2 powi e \<le> x"
  shows "expo x = e"
proof (rule antisym)
  from expo_spec [OF assms(1)] have s: "- 1022 \<le> expo x" "x < 2 powi (expo x + 1)"
    "expo x = - 1022 \<or> 2 powi expo x \<le> x" by simp_all
  show "expo x \<le> e"
  proof (rule ccontr)
    assume "\<not> expo x \<le> e"
    then have lt: "e + 1 \<le> expo x" by simp
    with assms(2) s(3) have "2 powi expo x \<le> x" by auto
    with pow2_mono [OF lt] assms(3) show False by linarith
  qed
  show "e \<le> expo x"
  proof (rule ccontr)
    assume "\<not> e \<le> expo x"
    then have lt: "expo x + 1 \<le> e" by simp
    with s(1) assms(4) have "2 powi e \<le> x" by auto
    with pow2_mono [OF lt] s(2) show False by linarith
  qed
qed

lemma expo_mono:
  assumes "0 < x" and "x \<le> y"
  shows "expo x \<le> expo y"
proof (rule ccontr)
  assume "\<not> expo x \<le> expo y"
  then have lt: "expo y + 1 \<le> expo x" by simp
  from assms have y: "0 < y" by simp
  from expo_spec [OF y] have "- 1022 \<le> expo y" "y < 2 powi (expo y + 1)" by simp_all
  moreover from expo_spec [OF assms(1)] lt \<open>- 1022 \<le> expo y\<close> have "2 powi expo x \<le> x" by auto
  ultimately show False using pow2_mono [OF lt] assms(2) by linarith
qed


lemma pow2_split_hi: "(2::real) powi (e + 1) = 2 powi (e - 52) * 2 ^ 53"
proof -
  have "(2::real) powi (e + 1) = 2 powi ((e - 52) + 53)"
    by (rule arg_cong [where f = "power_int 2"]) simp
  also have "\<dots> = 2 powi (e - 52) * 2 powi 53" by (rule power_int_add) simp
  finally show ?thesis by simp
qed

lemma pow2_split_lo: "(2::real) powi e = 2 powi (e - 52) * 2 ^ 52"
proof -
  have "(2::real) powi e = 2 powi ((e - 52) + 52)"
    by (rule arg_cong [where f = "power_int 2"]) simp
  also have "\<dots> = 2 powi (e - 52) * 2 powi 52" by (rule power_int_add) simp
  finally show ?thesis by simp
qed

lemma roundToDouble_pos_form:
  assumes "0 < x"
  shows "\<exists>k. roundToDouble x = of_int k * 2 powi (expo x - 52) \<and> 0 \<le> k \<and> k \<le> 2 ^ 53
           \<and> (2 powi expo x \<le> x \<longrightarrow> 2 ^ 52 \<le> k)"
proof -
  let ?u = "(2::real) powi (expo x - 52)"
  let ?k = "roundHalfEven (x / ?u)"
  have u: "0 < ?u" by (rule pow2_pos)
  have f: "roundToDouble x = of_int ?k * ?u" using assms by (simp add: roundToDouble_def Let_def)
  have "0 \<le> x / ?u" using assms u by simp
  then have "of_int 0 \<le> x / ?u" by simp
  then have k0: "0 \<le> ?k" by (rule roundHalfEven_ge)
  have "x < 2 powi (expo x + 1)" using expo_spec [OF assms] by simp
  then have "x < ?u * 2 ^ 53" by (simp only: pow2_split_hi)
  then have "x / ?u \<le> 2 ^ 53" using u by (simp add: field_simps)
  then have "x / ?u \<le> of_int (2 ^ 53)" by simp
  then have k1: "?k \<le> 2 ^ 53" by (rule roundHalfEven_le)
  have k2: "2 ^ 52 \<le> ?k" if "2 powi expo x \<le> x"
  proof -
    from that have "?u * 2 ^ 52 \<le> x" by (simp only: pow2_split_lo [symmetric])
    then have "2 ^ 52 \<le> x / ?u" using u by (simp add: field_simps)
    then have "of_int (2 ^ 52) \<le> x / ?u" by simp
    then show ?thesis by (rule roundHalfEven_ge)
  qed
  from f k0 k1 k2 show ?thesis by blast
qed

lemma roundToDouble_pos_unfold:
  assumes "0 < x"
  shows "roundToDouble x = of_int (roundHalfEven (x / 2 powi (expo x - 52))) * 2 powi (expo x - 52)"
  using assms by (simp add: roundToDouble_def Let_def)

lemma roundToDouble_zero: "roundToDouble 0 = 0"
  by (simp add: roundToDouble_def)

lemma roundToDouble_nonneg:
  assumes "0 \<le> x"
  shows "0 \<le> roundToDouble x"
proof (cases "x = 0")
  case True
  then show ?thesis by (simp add: roundToDouble_zero)
next
  case False
  with assms have "0 < x" by simp
  then obtain k where "roundToDouble x = of_int k * 2 powi (expo x - 52)" "0 \<le> k"
    using roundToDouble_pos_form by blast
  then show ?thesis using pow2_pos [of "expo x - 52"] by simp
qed

lemma roundToDouble_le_pow:
  assumes "0 < x"
  shows "roundToDouble x \<le> 2 powi (expo x + 1)"
proof -
  from assms obtain k where k: "roundToDouble x = of_int k * 2 powi (expo x - 52)" "k \<le> 2 ^ 53"
    using roundToDouble_pos_form by blast
  have "(of_int k :: real) \<le> 2 ^ 53" using k(2) by (metis of_int_le_iff of_int_numeral of_int_power)
  then have "(of_int k :: real) * 2 powi (expo x - 52) \<le> 2 ^ 53 * 2 powi (expo x - 52)"
    using pow2_pos [of "expo x - 52"] by (intro mult_right_mono) simp_all
  then show ?thesis unfolding k(1) pow2_split_hi by (simp add: mult.commute)
qed

lemma roundToDouble_ge_pow:
  assumes "0 < x" and "2 powi expo x \<le> x"
  shows "2 powi expo x \<le> roundToDouble x"
proof -
  from assms(1) obtain k where k: "roundToDouble x = of_int k * 2 powi (expo x - 52)"
    "2 powi expo x \<le> x \<longrightarrow> 2 ^ 52 \<le> k"
    using roundToDouble_pos_form by blast
  from k(2) assms(2) have "(2 ^ 52 :: real) \<le> of_int k"
    by (metis of_int_le_iff of_int_numeral of_int_power)
  then have "2 ^ 52 * 2 powi (expo x - 52) \<le> (of_int k :: real) * 2 powi (expo x - 52)"
    using pow2_pos [of "expo x - 52"] by (intro mult_right_mono) simp_all
  then show ?thesis unfolding k(1) pow2_split_lo [of "expo x"] by (simp add: mult.commute)
qed

lemma roundToDouble_mono_pos:
  assumes "0 < x" and "x \<le> y"
  shows "roundToDouble x \<le> roundToDouble y"
proof (cases "expo x = expo y")
  case True
  from assms have y: "0 < y" by simp
  let ?u = "(2::real) powi (expo y - 52)"
  have "x / ?u \<le> y / ?u" using assms(2) pow2_pos [of "expo y - 52"] by (simp add: divide_right_mono)
  then have "roundHalfEven (x / ?u) \<le> roundHalfEven (y / ?u)" by (rule roundHalfEven_mono)
  then have "real_of_int (roundHalfEven (x / ?u)) * ?u \<le> real_of_int (roundHalfEven (y / ?u)) * ?u"
    using pow2_pos [of "expo y - 52"] by (intro mult_right_mono) simp_all
  then show ?thesis using assms(1) y True by (simp add: roundToDouble_def Let_def)
next
  case False
  from assms have y: "0 < y" by simp
  from False expo_mono [OF assms] have lt: "expo x + 1 \<le> expo y" by simp
  with expo_spec [OF assms(1)] have "expo y \<noteq> - 1022" by linarith
  with expo_spec [OF y] have "2 powi expo y \<le> y" by simp
  then have "2 powi expo y \<le> roundToDouble y" by (rule roundToDouble_ge_pow [OF y])
  moreover have "roundToDouble x \<le> 2 powi (expo x + 1)" by (rule roundToDouble_le_pow [OF assms(1)])
  moreover have "(2::real) powi (expo x + 1) \<le> 2 powi expo y" by (rule pow2_mono [OF lt])
  ultimately show ?thesis by linarith
qed

lemma roundToDouble_minus: "roundToDouble (- x) = - roundToDouble x"
  by (simp add: roundToDouble_def Let_def roundHalfEven_minus)

lemma roundToDouble_mono:
  assumes "x \<le> y"
  shows "roundToDouble x \<le> roundToDouble y"
proof -
  consider "0 < x" | "x \<le> 0" "0 \<le> y" | "y < 0" by linarith
  then show ?thesis
  proof cases
    case 1
    then show ?thesis using assms by (rule roundToDouble_mono_pos)
  next
    case 2
    have "0 \<le> roundToDouble (- x)" using 2(1) by (intro roundToDouble_nonneg) simp
    then have "roundToDouble x \<le> 0" by (simp add: roundToDouble_minus)
    moreover have "0 \<le> roundToDouble y" using 2(2) by (rule roundToDouble_nonneg)
    ultimately show ?thesis by linarith
  next
    case 3
    then have "roundToDouble (- y) \<le> roundToDouble (- x)" using assms by (intro roundToDouble_mono_pos) simp_all
    then show ?thesis by (simp add: roundToDouble_minus)
  qed
qed

lemma roundToDouble_idem_pos:
  assumes "0 < x"
  shows "roundToDouble (roundToDouble x) = roundToDouble x"
proof -
  let ?e = "expo x"
  let ?u = "(2::real) powi (?e - 52)"
  from assms obtain k where k: "roundToDouble x = of_int k * ?u" "0 \<le> k" "k \<le> 2 ^ 53"
    "2 powi ?e \<le> x \<longrightarrow> 2 ^ 52 \<le> k"
    using roundToDouble_pos_form by blast
  have u: "0 < ?u" by (rule pow2_pos)
  consider "k = 0" | "0 < k" "k < 2 ^ 53" | "k = 2 ^ 53" using k(2,3) by linarith
  then show ?thesis
  proof cases
    case 1
    then show ?thesis by (simp add: k(1) roundToDouble_zero)
  next
    case 2
    let ?z = "of_int k * ?u"
    have z: "0 < ?z" using 2(1) u by simp
    have "(of_int k :: real) < 2 ^ 53" using 2(2) by (metis of_int_less_iff of_int_numeral of_int_power)
    then have "?z < 2 ^ 53 * ?u" using u by (intro mult_strict_right_mono)
    then have hi: "?z < 2 powi (?e + 1)" unfolding pow2_split_hi by (simp add: mult.commute)
    have lo: "?e = - 1022 \<or> 2 powi ?e \<le> ?z"
    proof (cases "?e = - 1022")
      case True
      then show ?thesis by simp
    next
      case False
      with expo_spec [OF assms] have "2 powi ?e \<le> x" by simp
      with k(4) have "(2 ^ 52 :: real) \<le> of_int k"
        by (metis of_int_le_iff of_int_numeral of_int_power)
      then have "2 ^ 52 * ?u \<le> ?z" using u by (intro mult_right_mono) simp_all
      then show ?thesis unfolding pow2_split_lo [of ?e] by (simp add: mult.commute)
    qed
    have e: "expo ?z = ?e"
      using z _ hi lo by (rule expo_unique) (use expo_spec [OF assms] in simp)
    have "roundToDouble ?z = of_int (roundHalfEven (?z / ?u)) * ?u"
      using roundToDouble_pos_unfold [OF z] by (simp only: e)
    also have "?z / ?u = of_int k" using u by simp
    finally show ?thesis by (simp add: k(1) roundHalfEven_of_int)
  next
    case 3
    let ?z = "(2::real) powi (?e + 1)"
    have zk: "roundToDouble x = ?z" unfolding k(1) 3 pow2_split_hi by (simp add: mult.commute)
    have z: "0 < ?z" by (rule pow2_pos)
    have e: "expo ?z = ?e + 1"
    proof (rule expo_unique [OF z])
      show "- 1022 \<le> ?e + 1" using expo_spec [OF assms] by simp
      show "?z < 2 powi (?e + 1 + 1)" by (rule pow2_less_mono) simp
      show "?e + 1 = - 1022 \<or> 2 powi (?e + 1) \<le> ?z" by simp
    qed
    have "?z = 2 powi (?e + 1 - 52) * 2 ^ 52" by (rule pow2_split_lo)
    then have d: "?z / 2 powi (?e + 1 - 52) = of_int (2 ^ 52)"
      using pow2_pos [of "?e + 1 - 52"] by (simp add: field_simps)
    have "roundToDouble ?z = of_int (roundHalfEven (?z / 2 powi (?e + 1 - 52))) * 2 powi (?e + 1 - 52)"
      using roundToDouble_pos_unfold [OF z] by (simp only: e)
    also have "\<dots> = of_int (2 ^ 52) * 2 powi (?e + 1 - 52)"
      unfolding d by (simp only: roundHalfEven_of_int)
    also have "\<dots> = ?z" using pow2_split_lo [of "?e + 1"] by (simp add: mult.commute)
    finally show ?thesis by (simp add: zk)
  qed
qed

lemma roundToDouble_idem: "roundToDouble (roundToDouble x) = roundToDouble x"
proof -
  consider "0 < x" | "x = 0" | "x < 0" by linarith
  then show ?thesis
  proof cases
    case 1
    then show ?thesis by (rule roundToDouble_idem_pos)
  next
    case 2
    then show ?thesis by (simp add: roundToDouble_zero)
  next
    case 3
    then have "roundToDouble (roundToDouble (- x)) = roundToDouble (- x)" by (intro roundToDouble_idem_pos) simp
    then show ?thesis by (simp add: roundToDouble_minus)
  qed
qed



subsection \<open>The arithmetic of the numbers\<close>

lemma val_D: "val (D x) = roundToDouble x"
  by (simp add: val_def D.rep_eq)

lemma val_plus: "val (a + b) = roundToDouble (val a + val b)"
  by (simp add: val_def plus_double.rep_eq)

lemma val_minus: "val (a - b) = roundToDouble (val a - val b)"
  by (simp add: val_def minus_double.rep_eq)

lemma val_times: "val (a * b) = roundToDouble (val a * val b)"
  by (simp add: val_def times_double.rep_eq)

lemma val_divide: "val (a / b) = roundToDouble (val a / val b)"
  by (simp add: val_def divide_double.rep_eq)

lemma val_zero: "val 0 = 0"
  by (simp add: val_def zero_double.rep_eq roundToDouble_zero)

lemma roundToDouble_one: "roundToDouble 1 = 1"
  by code_simp

lemma val_one: "val 1 = 1"
  by (simp add: val_def one_double.rep_eq roundToDouble_one)

lemma le_double_iff: "a \<le> b \<longleftrightarrow> val a \<le> val b"
  by (simp add: val_def less_eq_double.rep_eq)

lemma less_double_iff: "a < b \<longleftrightarrow> val a < val b"
  by (simp add: val_def less_double.rep_eq)

lemma val_fixed: "roundToDouble (val d) = val d"
proof -
  have "Rep_double d \<in> range roundToDouble" by (rule Rep_double)
  then obtain y where "Rep_double d = roundToDouble y" by blast
  then show ?thesis by (simp add: val_def roundToDouble_idem)
qed

lemma plus_mono_left: "a \<le> b \<Longrightarrow> a + c \<le> b + (c::double)"
  by (simp add: le_double_iff val_plus roundToDouble_mono)

lemma minus_mono_left: "a \<le> b \<Longrightarrow> a - c \<le> b - (c::double)"
  by (simp add: le_double_iff val_minus roundToDouble_mono)

lemma le_plus_nonneg:
  assumes "0 \<le> (c::double)"
  shows "a \<le> a + c"
proof -
  have "val a + 0 \<le> val a + val c" using assms by (simp add: le_double_iff val_zero)
  then have "roundToDouble (val a) \<le> roundToDouble (val a + val c)"
    by (intro roundToDouble_mono) simp
  then show ?thesis by (simp add: le_double_iff val_plus val_fixed)
qed

lemma zero_plus_double: "0 + (a::double) = a"
proof -
  have "val (0 + a) = val a" by (simp add: val_plus val_zero val_fixed)
  then show ?thesis by (simp add: val_def Rep_double_inject)
qed

lemma plus_commute_double: "a + b = b + (a::double)"
proof -
  have "val (a + b) = val (b + a)" by (simp add: val_plus add.commute)
  then show ?thesis by (simp add: val_def Rep_double_inject)
qed

lemma D_nonneg: "0 \<le> x \<Longrightarrow> 0 \<le> D x"
  by (simp add: le_double_iff val_zero val_D roundToDouble_nonneg)

lemma zero_less_one_double: "(0::double) < 1"
  by (simp add: less_double_iff val_zero val_one)

lemma minus_nonneg_double:
  assumes "b \<le> (a::double)"
  shows "0 \<le> a - b"
proof -
  have "0 \<le> val a - val b" using assms by (simp add: le_double_iff)
  then have "0 \<le> roundToDouble (val a - val b)" by (rule roundToDouble_nonneg)
  then show ?thesis by (simp add: le_double_iff val_zero val_minus)
qed

lemma divide_nonneg_double:
  assumes "0 \<le> (a::double)" and "0 < b"
  shows "0 \<le> a / b"
proof -
  have "0 \<le> val a / val b" using assms by (simp add: le_double_iff less_double_iff val_zero)
  then have "0 \<le> roundToDouble (val a / val b)" by (rule roundToDouble_nonneg)
  then show ?thesis by (simp add: le_double_iff val_zero val_divide)
qed

lemma divide_le_one_double:
  assumes "a \<le> (b::double)" and "0 < b"
  shows "a / b \<le> 1"
proof -
  have "val a / val b \<le> 1" using assms by (simp add: le_double_iff less_double_iff val_zero)
  then have "roundToDouble (val a / val b) \<le> roundToDouble 1" by (rule roundToDouble_mono)
  then show ?thesis by (simp add: le_double_iff val_one val_divide roundToDouble_one)
qed

subsection \<open>Evaluating the arithmetic on numerals\<close>

lemma roundToDouble_eval:
  assumes "x \<noteq> 0"
  shows "roundToDouble x =
     (let e = expo \<bar>x\<bar>
      in if e \<le> 52 then of_int (roundHalfEven (x * 2 ^ nat (52 - e))) / 2 ^ nat (52 - e)
         else of_int (roundHalfEven (x / 2 ^ nat (e - 52))) * 2 ^ nat (e - 52))"
proof (cases "expo \<bar>x\<bar> \<le> 52")
  case True
  then have "(2::real) powi (expo \<bar>x\<bar> - 52) = 1 / 2 ^ nat (52 - expo \<bar>x\<bar>)"
    by (auto simp: power_int_def power_one_over inverse_eq_divide)
  then show ?thesis using assms True
    by (simp add: roundToDouble_def Let_def)
next
  case False
  then have "(2::real) powi (expo \<bar>x\<bar> - 52) = 2 ^ nat (expo \<bar>x\<bar> - 52)"
    by (simp add: power_int_def)
  then show ?thesis using assms False
    by (simp add: roundToDouble_def Let_def)
qed

lemma double_eq_iff: "a = b \<longleftrightarrow> val a = val b"
  by (simp add: val_def Rep_double_inject)

lemmas double_eval = double_eq_iff le_double_iff less_double_iff val_plus val_minus val_times
  val_divide val_D val_zero val_one roundToDouble_zero roundToDouble_eval expo_def expoHi.simps
  expoLo.simps roundHalfEven_def Let_def

section \<open>Properties of the ranking engine\<close>

subsection \<open>Sorting keeps the elements\<close>

lemma set_insertBy: "set (insertBy c x ys) = insert x (set ys)"
  by (induction ys) auto

lemma set_sortBy: "set (sortBy c xs) = set xs"
  by (induction xs) (simp_all add: sortBy_def set_insertBy)

lemma sortBy_Nil_iff: "sortBy c xs = [] \<longleftrightarrow> xs = []"
  using set_sortBy [of c xs] by (metis set_empty)

subsection \<open>Minimum and maximum price\<close>

lemma mathMin_le:
  assumes "y \<in> set xs"
  shows "mathMin xs \<le> y"
proof (cases xs)
  case Nil
  with assms show ?thesis by simp
next
  case (Cons x ys)
  have "fold min ys x = Min (set (x # ys))" by (simp only: Min.set_eq_fold)
  also have "\<dots> \<le> y" using assms Cons by (intro Min_le) simp_all
  finally show ?thesis by (simp add: mathMin_def Cons)
qed

lemma mathMax_ge:
  assumes "y \<in> set xs"
  shows "y \<le> mathMax xs"
proof (cases xs)
  case Nil
  with assms show ?thesis by simp
next
  case (Cons x ys)
  have "y \<le> Max (set (x # ys))" using assms Cons by (intro Max_ge) simp_all
  also have "\<dots> = fold max ys x" by (simp only: Max.set_eq_fold)
  finally show ?thesis by (simp add: mathMax_def Cons)
qed

lemma priceMin_le:
  assumes "p \<in> set all"
  shows "priceMin all \<le> price p"
  unfolding priceMin_def using assms by (intro mathMin_le) simp

lemma priceMax_ge:
  assumes "p \<in> set all"
  shows "price p \<le> priceMax all"
  unfolding priceMax_def using assms by (intro mathMax_ge) simp

lemma priceSpan_ge_1: "1 \<le> priceSpan all"
  by (simp add: priceSpan_def)

subsection \<open>The result of rank\<close>

lemma rank_unfold:
  "rank all parsed =
     (if passing all parsed = [] then all
      else map prod (sortBy (compareScored parsed)
             (map (\<lambda>p. \<lparr>prod = p, scr = scoreOf all parsed p, npr = npriceOf all p\<rparr>)
                (passing all parsed))))"
proof -
  let ?mk = "\<lambda>p. \<lparr>prod = p, scr = scoreOf all parsed p, npr = npriceOf all p\<rparr>"
  have f: "filter (\<lambda>x. D 0.5 < scr x) (map ?mk all) = map ?mk (passing all parsed)"
    by (simp add: passing_def filter_map o_def)
  have "rank all parsed =
          (if length all = 0 then all
           else let scored = map prod (sortBy (compareScored parsed)
                               (filter (\<lambda>x. D 0.5 < scr x) (map ?mk all)))
                in if length scored \<noteq> 0 then scored else all)"
    by (simp add: rank_def Let_def scoreOf_def npriceOf_def priceSpan_def priceMin_def
        priceMax_def)
  then show ?thesis
    unfolding f by (auto simp: Let_def sortBy_Nil_iff passing_def)
qed

lemma set_rank:
  "set (rank all parsed) =
     (if \<exists>p\<in>set all. D 0.5 < scoreOf all parsed p
      then {p \<in> set all. D 0.5 < scoreOf all parsed p} else set all)"
  unfolding rank_unfold
  by (auto simp: passing_def filter_empty_conv set_sortBy image_image)

text \<open>
  A higher rating floor never raises a score: the floor decides only whether 2 is added,
  and every later step of the sum is monotone.
\<close>

lemma scoreProduct_minRating_antimono:
  assumes "r1 \<le> r2"
  shows "scoreProduct p (c\<lparr>minRating := Some r2\<rparr>) n
           \<le> scoreProduct p (c\<lparr>minRating := Some r1\<rparr>) n"
proof -
  define rest where "rest = (\<lambda>s5.
     (let s6 = (if priceIntent c = Some High then s5 + n * D 3 else s5);
          s7 = (if priceIntent c = Some Low then s6 + (1 - n) * D 3 else s6);
          s8 = s7 + rating p * D 0.2
      in s8 - price p * D 0.01))"
  define s4 where "s4 =
     (let hay = toLowerCase (name p @ '' '' @ description p @ '' '' @ categoryText (category p));
          s1 = foldl (\<lambda>s k. if includesStr hay k then s + D 2.5 else s) 0 (keywords c);
          catLower = toLowerCase (categoryText (category p));
          s2 = (if list_ex (\<lambda>h. h \<in> set (keywords c) \<and> h = catLower) CATEGORY_HINTS
                then s1 + D 2.5 else s1);
          s3 = (case maxPrice c of
                  Some m \<Rightarrow> if price p \<le> m then s2 + D 2 else s2 | None \<Rightarrow> s2)
      in (case minPrice c of
            Some m \<Rightarrow> if price p \<ge> m then s3 + D 1.5 else s3 | None \<Rightarrow> s3))"
  have sc: "scoreProduct p (c\<lparr>minRating := Some r\<rparr>) n
              = rest (if rating p \<ge> r then s4 + D 2 else s4)" for r
    by (simp add: scoreProduct_def rest_def s4_def Let_def)
  have mono: "rest a \<le> rest b" if "a \<le> b" for a b
    using that unfolding rest_def Let_def
    by (auto intro!: minus_mono_left plus_mono_left)
  have "s4 \<le> s4 + D 2" by (intro le_plus_nonneg D_nonneg) simp
  then have "(if rating p \<ge> r2 then s4 + D 2 else s4) \<le> (if rating p \<ge> r1 then s4 + D 2 else s4)"
    using assms by auto
  then show ?thesis unfolding sc by (rule mono)
qed

text \<open>The scores of the two sample items when only a rating floor \<open>r\<close> is set.\<close>

lemma score_watch:
  "scoreOf [watch, jacket] (noConstraints\<lparr>minRating := Some r\<rparr>) watch
     = (if r \<le> D 4.3 then 0 + D 2 else 0) + D 4.3 * D 0.2 - D 149 * D 0.01"
  by (simp add: scoreOf_def scoreProduct_def noConstraints_def watch_def CATEGORY_HINTS_def)

lemma score_jacket:
  "scoreOf [watch, jacket] (noConstraints\<lparr>minRating := Some r\<rparr>) jacket
     = (if r \<le> D 4.6 then 0 + D 2 else 0) + D 4.6 * D 0.2 - D 119 * D 0.01"
  by (simp add: scoreOf_def scoreProduct_def noConstraints_def jacket_def CATEGORY_HINTS_def)

lemma score_watch_4:
  "D 0.5 < scoreOf [watch, jacket] (noConstraints\<lparr>minRating := Some (D 4)\<rparr>) watch"
  unfolding score_watch by (simp add: double_eval)

lemma score_jacket_4:
  "D 0.5 < scoreOf [watch, jacket] (noConstraints\<lparr>minRating := Some (D 4)\<rparr>) jacket"
  unfolding score_jacket by (simp add: double_eval)

lemma score_watch_4_5:
  "scoreOf [watch, jacket] (noConstraints\<lparr>minRating := Some (D 4.5)\<rparr>) watch \<le> D 0.5"
  unfolding score_watch by (simp add: double_eval)

lemma score_jacket_4_5:
  "D 0.5 < scoreOf [watch, jacket] (noConstraints\<lparr>minRating := Some (D 4.5)\<rparr>) jacket"
  unfolding score_jacket by (simp add: double_eval)

lemma score_watch_5:
  "scoreOf [watch, jacket] (noConstraints\<lparr>minRating := Some (D 5)\<rparr>) watch \<le> D 0.5"
  unfolding score_watch by (simp add: double_eval)

lemma score_jacket_5:
  "scoreOf [watch, jacket] (noConstraints\<lparr>minRating := Some (D 5)\<rparr>) jacket \<le> D 0.5"
  unfolding score_jacket by (simp add: double_eval)

lemma watch_neq_jacket: "watch \<noteq> jacket"
  by (simp add: watch_def jacket_def)

subsection \<open>The claims about rank\<close>

text \<open>
  Claim C1. For a non-empty item list and any constraint set, if every item's computed
  score is at most 0.5, then rank returns the original list, in its original order; in
  particular the result is not empty.
\<close>

theorem rank_fallback_returns_input:
  assumes "all \<noteq> []" and "\<forall>p\<in>set all. scoreOf all parsed p \<le> D 0.5"
  shows "rank all parsed = all \<and> rank all parsed \<noteq> []"
proof -
  have "passing all parsed = []"
    using assms(2) by (auto simp: passing_def filter_empty_conv not_less)
  then show ?thesis using assms(1) by (simp add: rank_unfold)
qed

theorem rank_fallback_returns_input_witness:
  "[watch, jacket] \<noteq> []
   \<and> scoreOf [watch, jacket] (noConstraints\<lparr>minRating := Some (D 5)\<rparr>) watch \<le> D 0.5
   \<and> scoreOf [watch, jacket] (noConstraints\<lparr>minRating := Some (D 5)\<rparr>) jacket \<le> D 0.5
   \<and> rank [watch, jacket] (noConstraints\<lparr>minRating := Some (D 5)\<rparr>) = [watch, jacket]"
  using rank_fallback_returns_input [of "[watch, jacket]" "noConstraints\<lparr>minRating := Some (D 5)\<rparr>"]
    score_watch_5 score_jacket_5
  by simp

text \<open>
  Claim C2. For every constraint set, and so for every raw query string, rank applied to
  the empty item list returns the empty list.
\<close>

theorem rank_empty_input: "rank [] parsed = [] \<and> applyAIQuery [] q = []"
  by (simp add: rank_def applyAIQuery_def)

text \<open>
  Claim C3. For a non-empty item list in which at least one item scores above 0.5, an
  item of the input is in the result of rank exactly when its score is strictly greater
  than 0.5.
\<close>

theorem rank_member_iff_above_threshold:
  assumes "all \<noteq> []" and "\<exists>p\<in>set all. D 0.5 < scoreOf all parsed p" and "p \<in> set all"
  shows "p \<in> set (rank all parsed) \<longleftrightarrow> D 0.5 < scoreOf all parsed p"
  using assms by (simp add: set_rank)

theorem rank_member_iff_above_threshold_witness:
  "[watch, jacket] \<noteq> []
   \<and> D 0.5 < scoreOf [watch, jacket] (noConstraints\<lparr>minRating := Some (D 4.5)\<rparr>) jacket
   \<and> jacket \<in> set [watch, jacket]
   \<and> jacket \<in> set (rank [watch, jacket] (noConstraints\<lparr>minRating := Some (D 4.5)\<rparr>))"
  using rank_member_iff_above_threshold
    [of "[watch, jacket]" "noConstraints\<lparr>minRating := Some (D 4.5)\<rparr>" jacket]
    score_jacket_4_5
  by simp

text \<open>
  Claim C7, as stated: for two constraint sets that differ only in minRating, every item
  in the result under the higher minRating is in the result under the lower one. This
  fails when the higher floor leaves no item above the threshold: the fallback then
  returns every item, among them one that the lower floor had filtered out.
\<close>

theorem minRating_monotone_counterexample:
  "D 4.5 < D 5
   \<and> watch \<in> set (rank [watch, jacket] (noConstraints\<lparr>minRating := Some (D 5)\<rparr>))
   \<and> watch \<notin> set (rank [watch, jacket] (noConstraints\<lparr>minRating := Some (D 4.5)\<rparr>))"
proof -
  have "D 4.5 < D 5" by (simp add: double_eval)
  moreover have "\<not> D 0.5 < scoreOf [watch, jacket] (noConstraints\<lparr>minRating := Some (D 5)\<rparr>) watch"
    "\<not> D 0.5 < scoreOf [watch, jacket] (noConstraints\<lparr>minRating := Some (D 5)\<rparr>) jacket"
    "\<not> D 0.5 < scoreOf [watch, jacket] (noConstraints\<lparr>minRating := Some (D 4.5)\<rparr>) watch"
    using score_watch_5 score_jacket_5 score_watch_4_5 by (simp_all add: not_less)
  ultimately show ?thesis
    using score_jacket_4_5 by (simp add: set_rank watch_neq_jacket)
qed

text \<open>
  Claim C7, amended: for two constraint sets that differ only in minRating, if at least
  one item scores above 0.5 under the higher minRating, then every item in the result
  under the higher minRating is in the result under the lower one.
\<close>

theorem minRating_monotone_without_fallback:
  assumes "r1 < r2"
    and "\<exists>p\<in>set all. D 0.5 < scoreOf all (c\<lparr>minRating := Some r2\<rparr>) p"
  shows "set (rank all (c\<lparr>minRating := Some r2\<rparr>)) \<subseteq> set (rank all (c\<lparr>minRating := Some r1\<rparr>))"
proof -
  have mono: "scoreOf all (c\<lparr>minRating := Some r2\<rparr>) p \<le> scoreOf all (c\<lparr>minRating := Some r1\<rparr>) p"
    for p
    unfolding scoreOf_def using assms(1) by (intro scoreProduct_minRating_antimono) simp
  have ex1: "\<exists>p\<in>set all. D 0.5 < scoreOf all (c\<lparr>minRating := Some r1\<rparr>) p"
    using assms(2) mono by (meson less_le_trans)
  show ?thesis
    unfolding set_rank using assms(2) ex1 mono by (auto intro: less_le_trans)
qed

theorem minRating_monotone_without_fallback_witness:
  "D 4 < D 4.5
   \<and> D 0.5 < scoreOf [watch, jacket] (noConstraints\<lparr>minRating := Some (D 4.5)\<rparr>) jacket
   \<and> set (rank [watch, jacket] (noConstraints\<lparr>minRating := Some (D 4.5)\<rparr>))
       \<subseteq> set (rank [watch, jacket] (noConstraints\<lparr>minRating := Some (D 4)\<rparr>))
   \<and> set (rank [watch, jacket] (noConstraints\<lparr>minRating := Some (D 4.5)\<rparr>)) = {jacket}
   \<and> set (rank [watch, jacket] (noConstraints\<lparr>minRating := Some (D 4)\<rparr>)) = {watch, jacket}"
proof -
  have lt: "D 4 < D 4.5" by (simp add: double_eval)
  have ex: "\<exists>p\<in>set [watch, jacket].
              D 0.5 < scoreOf [watch, jacket] (noConstraints\<lparr>minRating := Some (D 4.5)\<rparr>) p"
    using score_jacket_4_5 by simp
  have "set (rank [watch, jacket] (noConstraints\<lparr>minRating := Some (D 4.5)\<rparr>))
          \<subseteq> set (rank [watch, jacket] (noConstraints\<lparr>minRating := Some (D 4)\<rparr>))"
    by (rule minRating_monotone_without_fallback [OF lt ex])
  moreover have "\<not> D 0.5 < scoreOf [watch, jacket] (noConstraints\<lparr>minRating := Some (D 4.5)\<rparr>) watch"
    using score_watch_4_5 by (simp add: not_less)
  then have "set (rank [watch, jacket] (noConstraints\<lparr>minRating := Some (D 4.5)\<rparr>)) = {jacket}"
    using score_jacket_4_5 by (auto simp: set_rank)
  moreover have "set (rank [watch, jacket] (noConstraints\<lparr>minRating := Some (D 4)\<rparr>)) = {watch, jacket}"
    using score_watch_4 score_jacket_4 by (auto simp: set_rank)
  ultimately show ?thesis using lt score_jacket_4_5 by simp
qed

text \<open>
  Claim C9. For a non-empty item list with non-negative prices, the span
  \<open>max 1 (max - min)\<close> is strictly positive, and the normalised price position
  \<open>(price - min) / span\<close> of every item of the list lies between 0 and 1.
\<close>

theorem span_positive_nprice_in_unit_interval:
  assumes "all \<noteq> []" and "\<forall>p\<in>set all. 0 \<le> price p"
  shows "priceSpan all = max 1 (priceMax all - priceMin all) \<and> 0 < priceSpan all
         \<and> (\<forall>p\<in>set all. npriceOf all p = (price p - priceMin all) / priceSpan all
               \<and> 0 \<le> npriceOf all p \<and> npriceOf all p \<le> 1)"
proof (intro conjI ballI)
  show "priceSpan all = max 1 (priceMax all - priceMin all)" by (simp add: priceSpan_def)
  show pos: "0 < priceSpan all"
    using priceSpan_ge_1 [of all] zero_less_one_double by (rule less_le_trans [rotated])
  fix p assume p: "p \<in> set all"
  show "npriceOf all p = (price p - priceMin all) / priceSpan all" by (simp add: npriceOf_def)
  have lo: "priceMin all \<le> price p" using p by (rule priceMin_le)
  have hi: "price p \<le> priceMax all" using p by (rule priceMax_ge)
  have d0: "0 \<le> price p - priceMin all" using lo by (rule minus_nonneg_double)
  then show "0 \<le> npriceOf all p"
    unfolding npriceOf_def using pos by (rule divide_nonneg_double)
  have "price p - priceMin all \<le> priceMax all - priceMin all"
    using hi by (rule minus_mono_left)
  then have "price p - priceMin all \<le> priceSpan all"
    by (simp add: priceSpan_def le_max_iff_disj)
  then show "npriceOf all p \<le> 1"
    unfolding npriceOf_def using pos by (rule divide_le_one_double)
qed

theorem span_positive_nprice_in_unit_interval_witness:
  "[watch, jacket] \<noteq> [] \<and> 0 \<le> price watch \<and> 0 \<le> price jacket
   \<and> priceSpan [watch, jacket] = D 30
   \<and> npriceOf [watch, jacket] watch = 1 \<and> npriceOf [watch, jacket] jacket = 0
   \<and> 0 < priceSpan [watch, jacket]
   \<and> 0 \<le> npriceOf [watch, jacket] watch \<and> npriceOf [watch, jacket] watch \<le> 1
   \<and> 0 \<le> npriceOf [watch, jacket] jacket \<and> npriceOf [watch, jacket] jacket \<le> 1"
proof -
  have pr: "\<forall>p\<in>set [watch, jacket]. 0 \<le> price p"
    by (simp add: watch_def jacket_def double_eval)
  have mn: "priceMin [watch, jacket] = D 119"
    by (simp add: priceMin_def mathMin_def watch_def jacket_def min_def) (simp add: double_eval)
  have mx: "priceMax [watch, jacket] = D 149"
    by (simp add: priceMax_def mathMax_def watch_def jacket_def max_def) (simp add: double_eval)
  have sp: "priceSpan [watch, jacket] = D 30"
    by (simp add: priceSpan_def mn mx max_def) (simp add: double_eval)
  have nw: "npriceOf [watch, jacket] watch = 1"
    unfolding npriceOf_def sp mn by (simp add: watch_def double_eval)
  have nj: "npriceOf [watch, jacket] jacket = 0"
    unfolding npriceOf_def sp mn by (simp add: jacket_def double_eval)
  have ne: "[watch, jacket] \<noteq> []" by simp
  have "0 < priceSpan [watch, jacket]
        \<and> (\<forall>p\<in>set [watch, jacket].
              0 \<le> npriceOf [watch, jacket] p \<and> npriceOf [watch, jacket] p \<le> 1)"
    using span_positive_nprice_in_unit_interval [OF ne pr] by blast
  then show ?thesis using pr sp nw nj by simp
qed

section \<open>Properties of the query interpreter\<close>

subsection \<open>The matcher on inputs of a known shape\<close>

lemma remaining_simp [simp]: "remaining (b, r, caps) = r"
  by (simp add: remaining_def)

lemma firstMatch_iff: "firstMatch r st = Some st' \<longleftrightarrow> (\<exists>rest. ms r st = st' # rest)"
  by (auto simp: firstMatch_def split: list.splits)

lemma firstMatch_Seq:
  assumes "firstMatch r1 st = Some st1" and "firstMatch r2 st1 = Some st2"
  shows "firstMatch (Seq r1 r2) st = Some st2"
  using assms by (auto simp: firstMatch_iff)

lemma ms_Seq_Nil:
  assumes "ms r1 st = []"
  shows "ms (Seq r1 r2) st = []"
  using assms by simp

lemma firstMatch_Alt1:
  assumes "firstMatch r1 st = Some st1"
  shows "firstMatch (Alt r1 r2) st = Some st1"
  using assms by (auto simp: firstMatch_iff)

lemma firstMatch_Opt_taken:
  assumes "firstMatch r st = Some st1"
  shows "firstMatch (Opt r) st = Some st1"
  using assms by (auto simp: firstMatch_iff)

lemma firstMatch_Opt_skipped:
  assumes "ms r st = []"
  shows "firstMatch (Opt r) st = Some st"
  using assms by (simp add: firstMatch_def)

lemma firstMatch_Group:
  assumes "firstMatch r (b, xs, caps) = Some (b', xs', caps')"
  shows "firstMatch (Group n r) (b, xs, caps)
           = Some (b', xs', (n, rev (take (length b' - length b) b')) # caps')"
  using assms by (auto simp: firstMatch_iff)

lemma firstMatch_Lit:
  assumes "canonicalize x = canonicalize c"
  shows "firstMatch (Lit c) (b, x # xs, caps) = Some (x # b, xs, caps)"
  using assms by (simp add: firstMatch_def)

lemma star_loop_class:
  assumes cls: "\<And>b r caps. f (b, r, caps) =
                  (case r of [] \<Rightarrow> [] | x # xs \<Rightarrow> if P x then [(x # b, xs, caps)] else [])"
    and "list_all P ws" and "xs = [] \<or> \<not> P (hd xs)" and "length ws \<le> n"
  shows "\<exists>rest. star_loop f n (b, ws @ xs, caps) = (rev ws @ b, xs, caps) # rest"
  using assms(2,4)
proof (induction ws arbitrary: b n)
  case Nil
  have "f (b, xs, caps) = []" using assms(3) by (cases xs) (simp_all add: cls)
  then show ?case by (cases n) simp_all
next
  case (Cons w ws)
  then obtain m where n: "n = Suc m" and m: "length ws \<le> m" by (cases n) auto
  from Cons.prems have w: "P w" and ws: "list_all P ws" by simp_all
  from Cons.IH [OF ws m, of "w # b"] obtain rest
    where "star_loop f m (w # b, ws @ xs, caps) = (rev ws @ w # b, xs, caps) # rest" by blast
  then show ?case by (simp add: n cls w)
qed

lemma ms_Space_class:
  "ms Space (b, r, caps) =
     (case r of [] \<Rightarrow> [] | x # xs \<Rightarrow> if isSpace x then [(x # b, xs, caps)] else [])"
  by simp

lemma ms_Digit_class:
  "ms Digit (b, r, caps) =
     (case r of [] \<Rightarrow> [] | x # xs \<Rightarrow> if isDigit x then [(x # b, xs, caps)] else [])"
  by simp

lemma firstMatch_Star_Space:
  assumes "list_all isSpace ws" and "xs = [] \<or> \<not> isSpace (hd xs)"
  shows "firstMatch (Star Space) (b, ws @ xs, caps) = Some (rev ws @ b, xs, caps)"
  using star_loop_class [of "ms Space" isSpace ws xs "length (ws @ xs)" b caps, OF ms_Space_class] assms
  by (auto simp: firstMatch_iff)

lemma firstMatch_Plus_Digit:
  assumes "ds \<noteq> []" and "list_all isDigit ds" and "xs = [] \<or> \<not> isDigit (hd xs)"
  shows "firstMatch (Plus Digit) (b, ds @ xs, caps) = Some (rev ds @ b, xs, caps)"
proof -
  from assms obtain d ds' where ds: "ds = d # ds'" and d: "isDigit d" and ds': "list_all isDigit ds'"
    by (cases ds) auto
  from star_loop_class [of "ms Digit" isDigit ds' xs "length (ds' @ xs)" "d # b" caps, OF ms_Digit_class]
    ds' assms(3)
  obtain rest where "star_loop (ms Digit) (length (ds' @ xs)) (d # b, ds' @ xs, caps)
      = (rev ds' @ d # b, xs, caps) # rest" by auto
  then show ?thesis by (simp add: firstMatch_def ds d remaining_def)
qed

lemma isDecimal_cases:
  assumes "isDecimal t"
  obtains (whole) "t \<noteq> []" "list_all isDigit t"
  | (fraction) ip fp where "t = ip @ CHR ''.'' # fp" "ip \<noteq> []" "list_all isDigit ip"
      "fp \<noteq> []" "list_all isDigit fp"
proof (cases "dropWhile isDigit t")
  case Nil
  then have "list_all isDigit t" by (simp add: list_all_iff dropWhile_eq_Nil_conv)
  moreover from assms have "t \<noteq> []" by (auto simp: isDecimal_def)
  ultimately show ?thesis by (intro whole)
next
  case (Cons c fp)
  have t: "t = takeWhile isDigit t @ dropWhile isDigit t" by simp
  from assms Cons have "c = CHR ''.''" "fp \<noteq> []" "list_all isDigit fp" "takeWhile isDigit t \<noteq> []"
    by (auto simp: isDecimal_def)
  moreover have "list_all isDigit (takeWhile isDigit t)"
    by (simp add: list_all_iff) (meson set_takeWhileD)
  ultimately show ?thesis using t Cons by (intro fraction [of "takeWhile isDigit t" fp]) auto
qed

lemma code_canonicalize_lower:
  assumes "isLower x"
  shows "code (canonicalize x) = code x - 32"
proof -
  from assms have "(of_char x :: nat) - 32 < 256" unfolding isLower_def code_def by arith
  then show ?thesis using assms by (simp add: canonicalize_def code_def)
qed

lemma canonicalize_other: "\<not> isLower x \<Longrightarrow> canonicalize x = x"
  by (simp add: canonicalize_def)

lemma canonicalize_eq_nonletter:
  assumes "\<not> isLower c" and "\<not> isUpper c"
  shows "canonicalize x = canonicalize c \<longleftrightarrow> x = c"
proof (cases "isLower x")
  case True
  have "canonicalize x \<noteq> c"
  proof
    assume "canonicalize x = c"
    then have "code c = code x - 32" using code_canonicalize_lower [OF True] by simp
    with True assms(2) show False unfolding isLower_def isUpper_def by arith
  qed
  moreover have "x \<noteq> c" using True assms(1) by auto
  ultimately show ?thesis by (simp add: canonicalize_other [OF assms(1)])
next
  case False
  then show ?thesis by (simp add: canonicalize_other assms(1))
qed

lemma ms_Lit_nonletter:
  assumes "\<not> isLower c" and "\<not> isUpper c" and "xs = [] \<or> hd xs \<noteq> c"
  shows "ms (Lit c) (b, xs, caps) = []"
  using assms by (cases xs) (simp_all add: canonicalize_eq_nonletter)

lemma dollar_class: "\<not> isLower CHR ''$''" "\<not> isUpper CHR ''$''" "\<not> isDigit CHR ''$''" "\<not> isSpace CHR ''$''"
  by (simp_all add: isLower_def isUpper_def isDigit_def isSpace_def code_def)

lemma dot_class: "\<not> isLower CHR ''.''" "\<not> isUpper CHR ''.''" "\<not> isDigit CHR ''.''" "\<not> isSpace CHR ''.''"
  by (simp_all add: isLower_def isUpper_def isDigit_def isSpace_def code_def)

lemma digit_not_space: "isDigit c \<Longrightarrow> \<not> isSpace c"
  by (auto simp: isDigit_def isSpace_def)

lemma firstMatch_decimal_re:
  assumes "isDecimal t" and "xs = [] \<or> (\<not> isDigit (hd xs) \<and> hd xs \<noteq> CHR ''.'')"
  shows "firstMatch decimal_re (b, t @ xs, caps) = Some (rev t @ b, xs, caps)"
  using assms(1)
proof (cases rule: isDecimal_cases)
  case whole
  have 1: "firstMatch (Plus Digit) (b, t @ xs, caps) = Some (rev t @ b, xs, caps)"
    using whole assms(2) by (intro firstMatch_Plus_Digit) auto
  have "ms (Lit CHR ''.'') (rev t @ b, xs, caps) = []"
    using assms(2) by (intro ms_Lit_nonletter) (auto simp: dot_class)
  then have "ms (Seq (Lit CHR ''.'') (Plus Digit)) (rev t @ b, xs, caps) = []"
    by (rule ms_Seq_Nil)
  then have 2: "firstMatch (Opt (Seq (Lit CHR ''.'') (Plus Digit))) (rev t @ b, xs, caps)
                  = Some (rev t @ b, xs, caps)"
    by (rule firstMatch_Opt_skipped)
  show ?thesis unfolding decimal_re_def by (rule firstMatch_Seq [OF 1 2])
next
  case (fraction ip fp)
  have 1: "firstMatch (Plus Digit) (b, ip @ CHR ''.'' # fp @ xs, caps)
             = Some (rev ip @ b, CHR ''.'' # fp @ xs, caps)"
    using fraction by (intro firstMatch_Plus_Digit) (auto simp: dot_class)
  have 2: "firstMatch (Lit CHR ''.'') (rev ip @ b, CHR ''.'' # fp @ xs, caps)
             = Some (CHR ''.'' # rev ip @ b, fp @ xs, caps)"
    by (rule firstMatch_Lit) simp
  have 3: "firstMatch (Plus Digit) (CHR ''.'' # rev ip @ b, fp @ xs, caps)
             = Some (rev fp @ CHR ''.'' # rev ip @ b, xs, caps)"
    using fraction assms(2) by (intro firstMatch_Plus_Digit) auto
  have "firstMatch (Opt (Seq (Lit CHR ''.'') (Plus Digit))) (rev ip @ b, CHR ''.'' # fp @ xs, caps)
          = Some (rev fp @ CHR ''.'' # rev ip @ b, xs, caps)"
    by (rule firstMatch_Opt_taken [OF firstMatch_Seq [OF 2 3]])
  from firstMatch_Seq [OF 1 this] show ?thesis
    unfolding decimal_re_def by (simp add: fraction(1))
qed

lemma firstMatch_Group_decimal_re:
  assumes "isDecimal t" and "xs = [] \<or> (\<not> isDigit (hd xs) \<and> hd xs \<noteq> CHR ''.'')"
  shows "firstMatch (Group n decimal_re) (b, t @ xs, caps) = Some (rev t @ b, xs, (n, t) # caps)"
  using firstMatch_Group [OF firstMatch_decimal_re [OF assms], of n] by simp


lemma ms_seqs_Cons: "ms (seqs (r # rs)) st = concat (map (ms (seqs rs)) (ms r st))"
proof (cases rs)
  case Nil
  have "ms Eps = (\<lambda>st. [st])" by (rule ext) simp
  then show ?thesis by (simp add: Nil)
next
  case (Cons q qs)
  then show ?thesis by simp
qed


lemma firstMatch_seqs_Cons:
  assumes "firstMatch r st = Some st1" and "firstMatch (seqs rs) st1 = Some st2"
  shows "firstMatch (seqs (r # rs)) st = Some st2"
  using assms by (auto simp: firstMatch_iff ms_seqs_Cons)

lemma firstMatch_lits: "firstMatch (lits w) (b, w @ xs, caps) = Some (rev w @ b, xs, caps)"
proof (induction w arbitrary: b)
  case Nil
  show ?case by (simp add: lits_def firstMatch_def)
next
  case (Cons c w)
  have "firstMatch (Lit c) (b, c # w @ xs, caps) = Some (c # b, w @ xs, caps)"
    by (rule firstMatch_Lit) simp
  moreover have "firstMatch (seqs (map Lit w)) (c # b, w @ xs, caps) = Some (rev w @ c # b, xs, caps)"
    using Cons.IH [of "c # b"] by (simp add: lits_def)
  ultimately have "firstMatch (seqs (Lit c # map Lit w)) (b, c # w @ xs, caps)
                     = Some (rev w @ c # b, xs, caps)"
    by (rule firstMatch_seqs_Cons)
  then show ?case by (simp add: lits_def)
qed

lemma exec_from_firstMatch:
  assumes "firstMatch re (b, s, []) = Some st"
  shows "exec_from re b s = Some (snd (snd st))"
  using assms by (cases s) (auto simp: firstMatch_iff)

lemma trim_id:
  assumes "s \<noteq> []" and "\<not> isSpace (hd s)" and "\<not> isSpace (last s)"
  shows "trim s = s"
proof -
  have "dropWhile isSpace s = s" using assms(1,2) by (cases s) simp_all
  moreover have "dropWhile isSpace (rev s) = rev s"
    using assms(1,3) by (cases "rev s") (simp_all add: hd_rev [symmetric])
  ultimately show ?thesis by (simp add: trim_def)
qed



lemma isDecimal_hd:
  assumes "isDecimal t"
  shows "t \<noteq> [] \<and> isDigit (hd t)"
  using assms by (cases rule: isDecimal_cases) (auto simp: neq_Nil_conv)

lemma isDecimal_last:
  assumes "isDecimal t"
  shows "isDigit (last t)"
  using assms
  by (cases rule: isDecimal_cases) (auto simp: list_all_iff)

lemma space_class: "isSpace CHR '' ''" "\<not> isDigit CHR '' ''"
  by (simp_all add: isSpace_def isDigit_def code_def)

lemma exec_between_decimals:
  assumes X: "isDecimal X" and Y: "isDecimal Y"
  shows "exec between_re (''between '' @ X @ '' and '' @ Y) = Some [(2, Y), (1, X)]"
proof -
  let ?b1 = "rev ''between''"
  let ?b2 = "CHR '' '' # ?b1"
  let ?b3 = "rev X @ ?b2"
  let ?b4 = "CHR '' '' # ?b3"
  let ?b5 = "rev ''and'' @ ?b4"
  let ?b6 = "CHR '' '' # ?b5"
  from X have hX: "X \<noteq> []" "isDigit (hd X)" by (simp_all add: isDecimal_hd)
  from Y have hY: "Y \<noteq> []" "isDigit (hd Y)" by (simp_all add: isDecimal_hd)
  have 1: "firstMatch (lits ''between'') ([], ''between'' @ '' '' @ X @ '' and '' @ Y, [])
             = Some (?b1, '' '' @ X @ '' and '' @ Y, [])"
    using firstMatch_lits [of "''between''" "[]"] by simp
  have 2: "firstMatch (Star Space) (?b1, '' '' @ X @ '' and '' @ Y, [])
             = Some (?b2, X @ '' and '' @ Y, [])"
    using firstMatch_Star_Space [of "'' ''" "X @ '' and '' @ Y" ?b1 "[]"] hX
    by (simp add: space_class digit_not_space)
  have 3: "firstMatch (Opt (Lit CHR ''$'')) (?b2, X @ '' and '' @ Y, [])
             = Some (?b2, X @ '' and '' @ Y, [])"
    using hX by (intro firstMatch_Opt_skipped ms_Lit_nonletter) (auto simp: dollar_class)
  have 4: "firstMatch (Group 1 decimal_re) (?b2, X @ '' and '' @ Y, [])
             = Some (?b3, '' and '' @ Y, [(1, X)])"
    by (rule firstMatch_Group_decimal_re [OF X]) (simp add: space_class)
  have 5: "firstMatch (Star Space) (?b3, '' '' @ ''and '' @ Y, [(1, X)])
             = Some (?b4, ''and '' @ Y, [(1, X)])"
    using firstMatch_Star_Space [of "'' ''" "''and '' @ Y" ?b3 "[(1, X)]"]
    by (simp add: isSpace_def code_def)
  have 6: "firstMatch (alts (lits ''and'') [Lit CHR ''-'', lits ''to'']) (?b4, ''and'' @ '' '' @ Y, [(1, X)])
             = Some (?b5, '' '' @ Y, [(1, X)])"
    using firstMatch_Alt1 [OF firstMatch_lits [of "''and''" ?b4 "'' '' @ Y" "[(1, X)]"]] by simp
  have 7: "firstMatch (Star Space) (?b5, '' '' @ Y, [(1, X)]) = Some (?b6, Y, [(1, X)])"
    using firstMatch_Star_Space [of "'' ''" Y ?b5 "[(1, X)]"] hY
    by (simp add: space_class digit_not_space)
  have 8: "firstMatch (Opt (Lit CHR ''$'')) (?b6, Y, [(1, X)]) = Some (?b6, Y, [(1, X)])"
    using hY by (intro firstMatch_Opt_skipped ms_Lit_nonletter) (auto simp: dollar_class)
  have 9: "firstMatch (Group 2 decimal_re) (?b6, Y @ [], [(1, X)])
             = Some (rev Y @ ?b6, [], [(2, Y), (1, X)])"
    by (rule firstMatch_Group_decimal_re [OF Y]) simp
  have "firstMatch between_re ([], ''between '' @ X @ '' and '' @ Y, [])
          = Some (rev Y @ ?b6, [], [(2, Y), (1, X)])"
    unfolding between_re_def
    apply (rule firstMatch_seqs_Cons, use 1 in simp)
    apply (rule firstMatch_seqs_Cons, use 2 in simp)
    apply (rule firstMatch_seqs_Cons, use 3 in simp)
    apply (rule firstMatch_seqs_Cons, use 4 in simp)
    apply (rule firstMatch_seqs_Cons, use 5 in simp)
    apply (rule firstMatch_seqs_Cons, use 6 in simp)
    apply (rule firstMatch_seqs_Cons, use 7 in simp)
    apply (rule firstMatch_seqs_Cons, use 8 in simp)
    apply (rule firstMatch_seqs_Cons, use 9 in simp)
    apply (simp add: firstMatch_def)
    done
  from exec_from_firstMatch [OF this] show ?thesis by (simp add: exec_def)
qed

subsection \<open>The fields of a parsed query\<close>

lemma price_bounds_parseQuery:
  "(minPrice (parseQuery q), maxPrice (parseQuery q)) =
     (case exec between_re (trim q) of
        Some m \<Rightarrow> (Some (min (Number (grp m 1)) (Number (grp m 2))),
                   Some (max (Number (grp m 1)) (Number (grp m 2))))
      | None \<Rightarrow>
          (case exec under_re (trim q) of
             Some m \<Rightarrow> (None, Some (Number (grp m 2)))
           | None \<Rightarrow>
               (case exec over_re (trim q) of
                  Some m \<Rightarrow> (Some (Number (grp m 2)), None)
                | None \<Rightarrow> (None, None))))"
  by (simp add: parseQuery_def Let_def split: option.splits prod.splits)



lemma Number_10: "Number ''10'' = D 10"
  by (simp add: Number_def natOfDigits_def digitVal_def code_def)

lemma Number_20: "Number ''20'' = D 20"
  by (simp add: Number_def natOfDigits_def digitVal_def code_def)

lemma Number_50: "Number ''50'' = D 50"
  by (simp add: Number_def natOfDigits_def digitVal_def code_def)


lemma parseQuery_under_50:
  "parseQuery ''under $50'' =
     \<lparr>maxPrice = Some (D 50), minPrice = None, minRating = None, keywords = [],
      priceIntent = None\<rparr>"
proof -
  have "trim ''under $50'' = ''under $50''" by code_simp
  moreover have "exec under_re ''under $50'' = Some [(2, ''50''), (1, ''under'')]" by code_simp
  moreover have "exec between_re ''under $50'' = None" by code_simp
  moreover have "exec over_re ''under $50'' = None" by code_simp
  moreover have "exec starsNum_re ''under $50'' = None" by code_simp
  moreover have "\<not> test impliesGood_re ''under $50''" by code_simp
  moreover have "\<not> test wantsHigh_re ''under $50''" by code_simp
  moreover have "\<not> test wantsLow_re ''under $50''" by code_simp
  moreover have "extractKeywords ''under $50'' = []" by code_simp
  ultimately show ?thesis by (simp add: parseQuery_def grp_def Number_50)
qed

lemma exec_between_20_10:
  "exec between_re (trim ''between 20 and 10'') = Some [(2, ''10''), (1, ''20'')]"
  by code_simp

lemma D_10_le_20: "D 10 \<le> D 20"
  by (simp add: double_eval)

lemma price_bounds_between_20_10:
  "minPrice (parseQuery ''between 20 and 10'') = Some (D 10)
   \<and> maxPrice (parseQuery ''between 20 and 10'') = Some (D 20)"
  using price_bounds_parseQuery [of "''between 20 and 10''"] D_10_le_20
  by (simp add: exec_between_20_10 grp_def Number_20 Number_10 min_def max_def)


subsection \<open>The rating pattern matches a rating phrase\<close>






subsection \<open>The rating pattern matches only at a rating phrase\<close>

















subsection \<open>The claims about parseQuery\<close>

text \<open>
  Claim C4. The phrase "between X and Y" is read without regard to the order of the two
  numbers: for all decimal numbers X and Y the parsed query has minPrice = min X Y and
  maxPrice = max X Y, so that "between 20 and 10" gives minPrice 10 and maxPrice 20.
\<close>

theorem between_order_independent:
  assumes "isDecimal X" and "isDecimal Y"
  shows "minPrice (parseQuery (''between '' @ X @ '' and '' @ Y)) = Some (min (Number X) (Number Y))
         \<and> maxPrice (parseQuery (''between '' @ X @ '' and '' @ Y)) = Some (max (Number X) (Number Y))"
proof -
  let ?q = "''between '' @ X @ '' and '' @ Y"
  have "\<not> isSpace (last ?q)"
    using isDecimal_last [OF assms(2)] isDecimal_hd [OF assms(2)] by (simp add: digit_not_space)
  moreover have "\<not> isSpace (hd ?q)" by (simp add: isSpace_def code_def)
  ultimately have "trim ?q = ?q" by (intro trim_id) simp_all
  then have "exec between_re (trim ?q) = Some [(2, Y), (1, X)]"
    using exec_between_decimals [OF assms] by simp
  with price_bounds_parseQuery [of ?q] show ?thesis by (simp add: grp_def)
qed

theorem between_order_independent_witness:
  "isDecimal ''20'' \<and> isDecimal ''10''
   \<and> minPrice (parseQuery ''between 20 and 10'') = Some (D 10)
   \<and> maxPrice (parseQuery ''between 20 and 10'') = Some (D 20)"
proof -
  have d: "isDecimal ''20''" "isDecimal ''10''"
    by (simp_all add: isDecimal_def isDigit_def code_def)
  from between_order_independent [OF d] d D_10_le_20 show ?thesis
    by (simp add: Number_20 Number_10 min_def max_def)
qed




text \<open>
  Claim C6. The query "under $50" sets maxPrice to 50, and with the parsed query the
  score of an item priced exactly 50 has the summand 2 of the max-price bonus, which the
  score without maxPrice lacks: the bound is inclusive.
\<close>

theorem under_50_inclusive_bonus:
  assumes "price p = D 50"
  shows "maxPrice (parseQuery ''under $50'') = Some (D 50)
         \<and> scoreProduct p (parseQuery ''under $50'') nprice
             = D 2 + rating p * D 0.2 - price p * D 0.01
         \<and> scoreProduct p ((parseQuery ''under $50'')\<lparr>maxPrice := None\<rparr>) nprice
             = rating p * D 0.2 - price p * D 0.01
         \<and> scoreProduct p ((parseQuery ''under $50'')\<lparr>maxPrice := None\<rparr>) nprice
             \<le> scoreProduct p (parseQuery ''under $50'') nprice"
proof -
  let ?r = "rating p * D 0.2"
  have two: "0 + D 2 = D 2" by (rule zero_plus_double)
  have w: "scoreProduct p (parseQuery ''under $50'') nprice = D 2 + ?r - price p * D 0.01"
    using assms by (simp add: parseQuery_under_50 scoreProduct_def CATEGORY_HINTS_def two)
  have wo: "scoreProduct p ((parseQuery ''under $50'')\<lparr>maxPrice := None\<rparr>) nprice
              = ?r - price p * D 0.01"
    by (simp add: parseQuery_under_50 scoreProduct_def CATEGORY_HINTS_def zero_plus_double)
  have "?r \<le> ?r + D 2" by (intro le_plus_nonneg D_nonneg) simp
  also have "?r + D 2 = D 2 + ?r" by (rule plus_commute_double)
  finally have le: "?r - price p * D 0.01 \<le> D 2 + ?r - price p * D 0.01"
    by (rule minus_mono_left)
  show ?thesis
  proof (intro conjI)
    show "maxPrice (parseQuery ''under $50'') = Some (D 50)" by (simp add: parseQuery_under_50)
    show "scoreProduct p (parseQuery ''under $50'') nprice = D 2 + ?r - price p * D 0.01"
      by (rule w)
    show "scoreProduct p ((parseQuery ''under $50'')\<lparr>maxPrice := None\<rparr>) nprice
            = ?r - price p * D 0.01"
      by (rule wo)
    show "scoreProduct p ((parseQuery ''under $50'')\<lparr>maxPrice := None\<rparr>) nprice
            \<le> scoreProduct p (parseQuery ''under $50'') nprice"
      unfolding w wo by (rule le)
  qed
qed

theorem under_50_inclusive_bonus_witness:
  "price belt50 = D 50
   \<and> maxPrice (parseQuery ''under $50'') = Some (D 50)
   \<and> scoreProduct belt50 (parseQuery ''under $50'') 0 = D 2.3
   \<and> scoreProduct belt50 ((parseQuery ''under $50'')\<lparr>maxPrice := None\<rparr>) 0
       = D 0.30000000000000004"
proof -
  have p: "price belt50 = D 50" by (simp add: belt50_def)
  have r: "rating belt50 = D 4" by (simp add: belt50_def)
  have a: "D 2 + D 4 * D 0.2 - D 50 * D 0.01 = D 2.3" by (simp add: double_eval)
  have b: "D 4 * D 0.2 - D 50 * D 0.01 = D 0.30000000000000004" by (simp add: double_eval)
  from under_50_inclusive_bonus [OF p, of 0] show ?thesis
    unfolding p r a b by simp
qed

text \<open>
  Claim C10. For every input string, when the parsed query has both minPrice and
  maxPrice, minPrice is at most maxPrice.
\<close>

theorem price_range_ordered:
  assumes "minPrice (parseQuery q) = Some a" and "maxPrice (parseQuery q) = Some b"
  shows "a \<le> b"
  using assms
  by (auto simp: parseQuery_def Let_def min_le_iff_disj le_max_iff_disj split: option.splits)

theorem price_range_ordered_witness:
  "minPrice (parseQuery ''between 20 and 10'') = Some (D 10)
   \<and> maxPrice (parseQuery ''between 20 and 10'') = Some (D 20)
   \<and> D 10 \<le> D 20"
  using price_range_ordered [of "''between 20 and 10''" "D 10" "D 20"] price_bounds_between_20_10
  by simp

end
